theory Spec2Isabelle
  imports Main "HOL-Library.Signed_Division" "HOL-Library.Word"
begin

section \<open>Machine integers, failures and memory\<close>

text \<open>
  The program is CUDA C++ (\<^verbatim>\<open>src/main.cu\<close>) with a C++ harness
  (\<^verbatim>\<open>tester/tester.cpp\<close>).  Every \<^verbatim>\<open>int\<close> of the source is a 32-bit signed
  integer.  A value of type \<^verbatim>\<open>int\<close> is modelled as a HOL \<open>int\<close>; an arithmetic
  result that does not fit 32 bits is undefined behaviour in C++ and is the failure
  \<open>Overflow\<close> of the model.  \<^verbatim>\<open>atomicAdd\<close> on an \<^verbatim>\<open>int\<close> is defined by the hardware
  to wrap around, which \<open>wrap32\<close> writes out.  An access outside an array is the
  failure \<open>OutOfBounds\<close>, a loop that cannot make progress is \<open>Diverges\<close>, and
  \<open>BadAlloc\<close> is the C++ exception thrown by \<^verbatim>\<open>make_unique<int[]>\<close> for a negative
  size.
\<close>

datatype error = OutOfBounds | Overflow | Diverges | BadAlloc

definition INT_MAX :: int where
  "INT_MAX = 2147483647"

definition INT_MIN :: int where
  "INT_MIN = - 2147483648"

definition int32 :: "int \<Rightarrow> error + int" where
  "int32 x = (if INT_MIN \<le> x \<and> x \<le> INT_MAX then Inr x else Inl Overflow)"

definition wrap32 :: "int \<Rightarrow> int" where
  "wrap32 x = (x + 2147483648) mod 4294967296 - 2147483648"

section \<open>Launch Planner\<close>

text \<open>
  Lines 153 to 172 of \<^verbatim>\<open>main.cu\<close>.  \<^verbatim>\<open>blockSize\<close> is the constant 1024; the
  occupancy target is \<^verbatim>\<open>(numSMs * 2048 + blockSize - 1) / blockSize\<close> and the
  work-covering bound is \<^verbatim>\<open>(N + blockSize * 12 - 1) / (blockSize * 12)\<close>, both in
  \<^verbatim>\<open>int\<close> arithmetic, evaluated left to right, with C++ division (truncating, \<open>sdiv\<close>).
\<close>

definition blockSize :: int where
  "blockSize = 1024"

record device =
  deviceCount :: int
  multiProcessorCount :: int
  sharedMemPerBlock :: int

definition numSMs_of :: "device \<Rightarrow> int" where
  "numSMs_of dev = (if deviceCount dev > 0 then multiProcessorCount dev else 80)"

definition occupancy_grid :: "int \<Rightarrow> error + int" where
  "occupancy_grid numSMs =
     (case int32 (numSMs * 2048) of Inl e \<Rightarrow> Inl e
      | Inr a \<Rightarrow> (case int32 (a + blockSize) of Inl e \<Rightarrow> Inl e
      | Inr b \<Rightarrow> (case int32 (b - 1) of Inl e \<Rightarrow> Inl e
      | Inr c \<Rightarrow> Inr (c sdiv blockSize))))"

definition maxGridSize :: "int \<Rightarrow> error + int" where
  "maxGridSize N =
     (case int32 (N + blockSize * 12) of Inl e \<Rightarrow> Inl e
      | Inr a \<Rightarrow> (case int32 (a - 1) of Inl e \<Rightarrow> Inl e
      | Inr b \<Rightarrow> Inr (b sdiv (blockSize * 12))))"

definition plan_grid :: "int \<Rightarrow> int \<Rightarrow> error + int" where
  "plan_grid numSMs N =
     (case occupancy_grid numSMs of Inl e \<Rightarrow> Inl e
      | Inr gridSize \<Rightarrow> (case maxGridSize N of Inl e \<Rightarrow> Inl e
      | Inr m \<Rightarrow> Inr (if gridSize > m then m else gridSize)))"

text \<open>
  The unit count in the words of the specification: the smaller of the occupancy target
  and the work-covering bound, each a quotient rounded up.
\<close>

definition ceil_div :: "int \<Rightarrow> int \<Rightarrow> int" where
  "ceil_div a b = - ((- a) div b)"

definition spec_unit_count :: "int \<Rightarrow> int \<Rightarrow> int" where
  "spec_unit_count numSMs N = min (ceil_div (numSMs * 2048) 1024) (ceil_div N (1024 * 12))"

section \<open>Device memory and loops\<close>

text \<open>
  Arrays are lists; every access checks the index, because C++ does not define an access
  outside the array.  \<open>atomicAdd\<close> is the CUDA read-modify-write on one
  \<^verbatim>\<open>int\<close> cell.
\<close>

definition load :: "'a list \<Rightarrow> int \<Rightarrow> error + 'a" where
  "load mem i = (if 0 \<le> i \<and> nat i < length mem then Inr (mem ! nat i) else Inl OutOfBounds)"

definition store :: "'a list \<Rightarrow> int \<Rightarrow> 'a \<Rightarrow> error + 'a list" where
  "store mem i v = (if 0 \<le> i \<and> nat i < length mem then Inr (mem[nat i := v]) else Inl OutOfBounds)"

definition atomicAdd :: "int list \<Rightarrow> int \<Rightarrow> int \<Rightarrow> error + int list" where
  "atomicAdd mem i v =
     (if 0 \<le> i \<and> nat i < length mem then Inr (mem[nat i := wrap32 (mem ! nat i + v)])
      else Inl OutOfBounds)"

text \<open>
  \<open>increment\<close> is the plain \<^verbatim>\<open>a[i]++\<close> on an \<^verbatim>\<open>int\<close> array: signed, so that
  leaving the 32-bit range is undefined.
\<close>

definition increment :: "int list \<Rightarrow> int \<Rightarrow> error + int list" where
  "increment mem i =
     (case load mem i of Inl e \<Rightarrow> Inl e
      | Inr old \<Rightarrow> (case int32 (old + 1) of Inl e \<Rightarrow> Inl e
      | Inr new \<Rightarrow> store mem i new))"

text \<open>
  \<open>for_each f xs s\<close> runs \<open>f\<close> for the elements of \<open>xs\<close> in order and stops at the
  first failure.  It is the loop with a fixed trip count (the unrolled loops of the
  kernel) and also the order in which the model runs the threads of a block and the
  blocks of a grid.
\<close>

fun for_each :: "('a \<Rightarrow> 's \<Rightarrow> error + 's) \<Rightarrow> 'a list \<Rightarrow> 's \<Rightarrow> error + 's" where
  "for_each f [] s = Inr s"
| "for_each f (x # xs) s = (case f x s of Inl e \<Rightarrow> Inl e | Inr s' \<Rightarrow> for_each f xs s')"

fun collect :: "('a \<Rightarrow> error + 'b) \<Rightarrow> 'a list \<Rightarrow> error + 'b list" where
  "collect f [] = Inr []"
| "collect f (x # xs) =
     (case f x of Inl e \<Rightarrow> Inl e
      | Inr y \<Rightarrow> (case collect f xs of Inl e \<Rightarrow> Inl e | Inr ys \<Rightarrow> Inr (y # ys)))"

text \<open>
  \<open>for_stride i limit step body s\<close> is \<^verbatim>\<open>for (int i = ...; i < limit; i += step) body\<close>.
  The step is evaluated at each increment, so it is passed with its own failure; the
  incremented index must fit \<^verbatim>\<open>int\<close>.  With a step that is not positive the C++ loop
  never ends, which is the failure \<open>Diverges\<close>.
\<close>

function for_stride ::
  "int \<Rightarrow> int \<Rightarrow> error + int \<Rightarrow> (int \<Rightarrow> 's \<Rightarrow> error + 's) \<Rightarrow> 's \<Rightarrow> error + 's" where
  "for_stride i limit step body s =
     (if i < limit then
        (case body i s of Inl e \<Rightarrow> Inl e
         | Inr s' \<Rightarrow> (case step of Inl e \<Rightarrow> Inl e
         | Inr d \<Rightarrow> if d \<le> 0 then Inl Diverges
                    else (case int32 (i + d) of Inl e \<Rightarrow> Inl e
                          | Inr i' \<Rightarrow> for_stride i' limit step body s')))
      else Inr s)"
  by pat_completeness auto
termination
proof (relation "measure (\<lambda>(i, limit, step, body, s). nat (limit - i))")
  show "wf (measure (\<lambda>(i, limit, step, body, s). nat (limit - i)))"
    by simp
next
  fix i limit :: int and step :: "error + int" and body :: "int \<Rightarrow> 's \<Rightarrow> error + 's"
    and s s' :: 's and d i' :: int
  assume "i < limit" "\<not> d \<le> 0" "int32 (i + d) = Inr i'"
  then show "((i', limit, step, body, s'), (i, limit, step, body, s))
      \<in> measure (\<lambda>(i, limit, step, body, s). nat (limit - i))"
    by (auto simp: int32_def split: if_splits)
qed

section \<open>Launch configuration\<close>

text \<open>
  A kernel runs under a launch \<^verbatim>\<open><<<gridDim, blockDim, sharedMemSize>>>\<close>.  The
  dynamic shared memory of a block has \<open>sharedMemSize div 4\<close> cells of type \<^verbatim>\<open>int\<close>
  whose content at block start is not specified; \<open>uninit L bx\<close> gives that content
  for block \<open>bx\<close>.

  Threads of a block and blocks of a grid run concurrently on the device.  The kernels
  touch shared and global cells only through \<^verbatim>\<open>atomicAdd\<close>, or with plain stores to
  cells that no other thread touches in the same phase, and \<^verbatim>\<open>__syncthreads()\<close>
  separates the phases of a block.  The model therefore runs the phases of a block one
  after the other, and inside a phase the threads in the order of \<^verbatim>\<open>threadIdx.x\<close>,
  and the blocks in the order of \<^verbatim>\<open>blockIdx.x\<close>.
\<close>

record launch =
  gridDim :: nat
  blockDim :: nat
  sharedMemSize :: nat
  uninit :: "nat \<Rightarrow> nat \<Rightarrow> int"

definition shared_at_start :: "launch \<Rightarrow> nat \<Rightarrow> int list" where
  "shared_at_start L bx = map (uninit L bx) [0..<sharedMemSize L div 4]"

text \<open>\<^verbatim>\<open>blockIdx.x * blockDim.x + threadIdx.x\<close>, converted to \<^verbatim>\<open>int\<close>.\<close>

definition global_thread_id :: "launch \<Rightarrow> nat \<Rightarrow> nat \<Rightarrow> error + int" where
  "global_thread_id L bx tx = int32 (int (bx * blockDim L + tx))"

text \<open>\<^verbatim>\<open>blockDim.x * gridDim.x\<close>, converted to \<^verbatim>\<open>int\<close>.\<close>

definition grid_stride :: "launch \<Rightarrow> error + int" where
  "grid_stride L = int32 (int (blockDim L * gridDim L))"

section \<open>The naive kernel\<close>

text \<open>
  \<^verbatim>\<open>computeHistogramNaive\<close>, lines 10 to 15: one thread per sample, one global
  \<^verbatim>\<open>atomicAdd\<close> per thread.  The samples are \<^verbatim>\<open>unsigned char\<close>; \<^verbatim>\<open>numBins\<close> is not
  used.
\<close>

definition naive_thread ::
  "launch \<Rightarrow> 8 word list \<Rightarrow> int \<Rightarrow> nat \<Rightarrow> nat \<Rightarrow> int list \<Rightarrow> error + int list" where
  "naive_thread L input N bx tx histogram =
     (case global_thread_id L bx tx of Inl e \<Rightarrow> Inl e
      | Inr idx \<Rightarrow>
          if idx < N then
            (case load input idx of Inl e \<Rightarrow> Inl e
             | Inr v \<Rightarrow> atomicAdd histogram (uint v) 1)
          else Inr histogram)"

definition computeHistogramNaive ::
  "launch \<Rightarrow> 8 word list \<Rightarrow> int list \<Rightarrow> int \<Rightarrow> int \<Rightarrow> error + int list" where
  "computeHistogramNaive L input histogram N numBins =
     for_each (\<lambda>bx. for_each (naive_thread L input N bx) [0..<blockDim L])
       [0..<gridDim L] histogram"

section \<open>The shared-memory kernel\<close>

text \<open>
  \<^verbatim>\<open>computeHistogramShared\<close>, lines 18 to 35.  Three phases per block: the threads
  zero \<^verbatim>\<open>sharedHist[0..numBins)\<close>; each thread walks the samples with the grid stride
  and adds to \<^verbatim>\<open>sharedHist[input[i]]\<close>; the threads add the positive shared counts to
  the global histogram.
\<close>

definition zero_shared :: "launch \<Rightarrow> int \<Rightarrow> int list \<Rightarrow> error + int list" where
  "zero_shared L numBins sharedHist =
     for_each (\<lambda>tx. for_stride (int tx) numBins (Inr (int (blockDim L))) (\<lambda>i sh. store sh i 0))
       [0..<blockDim L] sharedHist"

definition shared_thread ::
  "launch \<Rightarrow> 8 word list \<Rightarrow> int \<Rightarrow> nat \<Rightarrow> nat \<Rightarrow> int list \<Rightarrow> error + int list" where
  "shared_thread L input N bx tx sharedHist =
     (case global_thread_id L bx tx of Inl e \<Rightarrow> Inl e
      | Inr start \<Rightarrow>
          for_stride start N (grid_stride L)
            (\<lambda>i sh. case load input i of Inl e \<Rightarrow> Inl e
                     | Inr v \<Rightarrow> atomicAdd sh (uint v) 1)
            sharedHist)"

definition flush_shared :: "launch \<Rightarrow> int \<Rightarrow> int list \<Rightarrow> int list \<Rightarrow> error + int list" where
  "flush_shared L numBins sharedHist histogram =
     for_each (\<lambda>tx. for_stride (int tx) numBins (Inr (int (blockDim L)))
         (\<lambda>i h. case load sharedHist i of Inl e \<Rightarrow> Inl e
                 | Inr val \<Rightarrow> if val > 0 then atomicAdd h i val else Inr h))
       [0..<blockDim L] histogram"

definition shared_block ::
  "launch \<Rightarrow> 8 word list \<Rightarrow> int \<Rightarrow> int \<Rightarrow> nat \<Rightarrow> int list \<Rightarrow> error + int list" where
  "shared_block L input N numBins bx histogram =
     (case zero_shared L numBins (shared_at_start L bx) of Inl e \<Rightarrow> Inl e
      | Inr sh0 \<Rightarrow>
     (case for_each (shared_thread L input N bx) [0..<blockDim L] sh0 of Inl e \<Rightarrow> Inl e
      | Inr sh \<Rightarrow> flush_shared L numBins sh histogram))"

definition computeHistogramShared ::
  "launch \<Rightarrow> 8 word list \<Rightarrow> int list \<Rightarrow> int \<Rightarrow> int \<Rightarrow> error + int list" where
  "computeHistogramShared L input histogram N numBins =
     for_each (shared_block L input N numBins) [0..<gridDim L] histogram"

section \<open>The hierarchical kernel\<close>

text \<open>
  \<^verbatim>\<open>computeHistogramOptimized\<close>, lines 38 to 105.  The samples are \<^verbatim>\<open>int\<close>.  A
  thread keeps 32 private counters, walks the samples in batches of
  \<open>elementsPerThread\<close> (first all loads of a batch, a slot past the end getting -1,
  then the classification), merges its positive private counters into the shared
  accumulator and, after the barrier, the block adds the positive shared counts to the
  global histogram.  The global memory carries, next to the cells, the list of the bins
  that an \<^verbatim>\<open>atomicAdd\<close> of the final reduction has written, latest first.
\<close>

definition elementsPerThread :: nat where
  "elementsPerThread = 12"

definition prefetch :: "int list \<Rightarrow> int \<Rightarrow> int \<Rightarrow> int \<Rightarrow> error + int list" where
  "prefetch input N base stride =
     collect (\<lambda>i. case int32 (int i * stride) of Inl e \<Rightarrow> Inl e
                  | Inr off \<Rightarrow> (case int32 (base + off) of Inl e \<Rightarrow> Inl e
                  | Inr idx \<Rightarrow> if idx < N then load input idx else Inr (- 1)))
       [0..<elementsPerThread]"

definition classify ::
  "int \<Rightarrow> int \<Rightarrow> int list \<times> int list \<Rightarrow> error + int list \<times> int list" where
  "classify numBins value st =
     (case st of (localHist, sharedHist) \<Rightarrow>
        if value \<ge> 0 \<and> value < numBins then
          if value < 32 then
            (case increment localHist value of Inl e \<Rightarrow> Inl e
             | Inr lh \<Rightarrow> Inr (lh, sharedHist))
          else
            (case atomicAdd sharedHist value 1 of Inl e \<Rightarrow> Inl e
             | Inr sh \<Rightarrow> Inr (localHist, sh))
        else Inr st)"

definition process_batch ::
  "int list \<Rightarrow> int \<Rightarrow> int \<Rightarrow> int \<Rightarrow> int \<Rightarrow> int list \<times> int list
    \<Rightarrow> error + int list \<times> int list" where
  "process_batch input N numBins stride base st =
     (case prefetch input N base stride of Inl e \<Rightarrow> Inl e
      | Inr values \<Rightarrow> for_each (classify numBins) values st)"

definition merge_local :: "int list \<Rightarrow> int list \<Rightarrow> error + int list" where
  "merge_local localHist sharedHist =
     for_each (\<lambda>i sh. case load localHist (int i) of Inl e \<Rightarrow> Inl e
                      | Inr c \<Rightarrow> if c > 0 then atomicAdd sh (int i) c else Inr sh)
       [0..<32] sharedHist"

definition optimized_thread ::
  "launch \<Rightarrow> int list \<Rightarrow> int \<Rightarrow> int \<Rightarrow> nat \<Rightarrow> nat \<Rightarrow> int list \<Rightarrow> error + int list" where
  "optimized_thread L input N numBins bx tx sharedHist =
     (case global_thread_id L bx tx of Inl e \<Rightarrow> Inl e
      | Inr tid \<Rightarrow> (case grid_stride L of Inl e \<Rightarrow> Inl e
      | Inr stride \<Rightarrow>
     (case for_stride tid N (int32 (stride * int elementsPerThread))
             (process_batch input N numBins stride) (replicate 32 0, sharedHist)
      of Inl e \<Rightarrow> Inl e
      | Inr (localHist, sh) \<Rightarrow> merge_local localHist sh)))"

type_synonym global = "int list \<times> int list"

definition flush_global :: "launch \<Rightarrow> int \<Rightarrow> int list \<Rightarrow> global \<Rightarrow> error + global" where
  "flush_global L numBins sharedHist g =
     for_each (\<lambda>tx. for_stride (int tx) numBins (Inr (int (blockDim L)))
         (\<lambda>i (histogram, written).
            case load sharedHist i of Inl e \<Rightarrow> Inl e
            | Inr val \<Rightarrow>
                if val > 0 then
                  (case atomicAdd histogram i val of Inl e \<Rightarrow> Inl e
                   | Inr h \<Rightarrow> Inr (h, i # written))
                else Inr (histogram, written)))
       [0..<blockDim L] g"

definition accumulate_block ::
  "launch \<Rightarrow> int list \<Rightarrow> int \<Rightarrow> int \<Rightarrow> nat \<Rightarrow> error + int list" where
  "accumulate_block L input N numBins bx =
     (case zero_shared L numBins (shared_at_start L bx) of Inl e \<Rightarrow> Inl e
      | Inr sh0 \<Rightarrow> for_each (optimized_thread L input N numBins bx) [0..<blockDim L] sh0)"

definition optimized_block ::
  "launch \<Rightarrow> int list \<Rightarrow> int \<Rightarrow> int \<Rightarrow> nat \<Rightarrow> global \<Rightarrow> error + global" where
  "optimized_block L input N numBins bx g =
     (case accumulate_block L input N numBins bx of Inl e \<Rightarrow> Inl e
      | Inr sh \<Rightarrow> flush_global L numBins sh g)"

definition computeHistogramOptimized ::
  "launch \<Rightarrow> int list \<Rightarrow> int list \<Rightarrow> int \<Rightarrow> int \<Rightarrow> error + global" where
  "computeHistogramOptimized L input histogram N numBins =
     for_each (optimized_block L input N numBins) [0..<gridDim L] (histogram, [])"

section \<open>The sequential reference\<close>

text \<open>\<^verbatim>\<open>computeHistogramCPU\<close>, lines 108 to 116: no filter on the sample value.\<close>

definition computeHistogramCPU ::
  "8 word list \<Rightarrow> int list \<Rightarrow> int \<Rightarrow> int \<Rightarrow> error + int list" where
  "computeHistogramCPU input histogram N numBins =
     (case for_stride 0 numBins (int32 1) (\<lambda>i h. store h i 0) histogram of Inl e \<Rightarrow> Inl e
      | Inr h0 \<Rightarrow>
          for_stride 0 N (int32 1)
            (\<lambda>i h. case load input i of Inl e \<Rightarrow> Inl e | Inr v \<Rightarrow> increment h (uint v))
            h0)"

section \<open>The engine entry point\<close>

text \<open>
  \<^verbatim>\<open>solution::compute\<close>, lines 119 to 196.  The world of the call is the temporary
  directory, the files (a binary file is the list of its 4-byte integers), the device
  and the content of uninitialised shared memory.  The result is the returned path or
  the failure, with the world after the call.

  The CUDA calls return error codes that \<^verbatim>\<open>compute\<close> never reads.  The model takes
  from the CUDA runtime that a launch is rejected, and the kernel not run, when there is
  no device, when the grid is empty or negative, or when the dynamic shared memory
  request is above the limit of the device; that memory allocations on host and device
  succeed when the size is not negative; and that the temporary directory is writable.
  \<^verbatim>\<open>int sharedMemSize = B * sizeof(int)\<close> is computed in \<^verbatim>\<open>size_t\<close> and narrowed
  to \<^verbatim>\<open>int\<close>, which wraps around.
\<close>

record world =
  temp_directory :: string
  files :: "string \<Rightarrow> int list option"
  gpu :: device
  junk :: "nat \<Rightarrow> nat \<Rightarrow> int"

definition path_append :: "string \<Rightarrow> string \<Rightarrow> string" where
  "path_append dir name =
     (if dir = [] then name
      else if last dir = CHR ''/'' then dir @ name
      else dir @ ''/'' @ name)"

definition student_path :: "world \<Rightarrow> string" where
  "student_path w = path_append (temp_directory w) ''student_histogram.dat''"

text \<open>
  \<^verbatim>\<open>ifstream::read\<close> into a zero-initialised buffer of \<open>n\<close> integers: a missing or
  short file leaves the rest of the buffer zero.
\<close>

definition read_ints :: "(string \<Rightarrow> int list option) \<Rightarrow> string \<Rightarrow> nat \<Rightarrow> int list" where
  "read_ints fs path n =
     (case fs path of None \<Rightarrow> replicate n 0
      | Some content \<Rightarrow> take n content @ replicate (n - length content) 0)"

definition launch_accepted :: "device \<Rightarrow> int \<Rightarrow> int \<Rightarrow> int \<Rightarrow> bool" where
  "launch_accepted dev gridSize blockSz sharedMemSz \<longleftrightarrow>
     deviceCount dev > 0 \<and> 1 \<le> gridSize \<and> 1 \<le> blockSz \<and> blockSz \<le> 1024
     \<and> 0 \<le> sharedMemSz \<and> sharedMemSz \<le> sharedMemPerBlock dev"

definition run_kernel :: "world \<Rightarrow> int \<Rightarrow> int \<Rightarrow> int list \<Rightarrow> int list \<Rightarrow> int \<Rightarrow> int
    \<Rightarrow> error + int list" where
  "run_kernel w gridSize sharedMemSz d_input d_histogram N B =
     (if launch_accepted (gpu w) gridSize blockSize sharedMemSz then
        (case computeHistogramOptimized
                \<lparr>gridDim = nat gridSize, blockDim = nat blockSize,
                 sharedMemSize = nat sharedMemSz, uninit = junk w\<rparr>
                d_input d_histogram N B
         of Inl e \<Rightarrow> Inl e | Inr (h, written) \<Rightarrow> Inr h)
      else Inr d_histogram)"

definition compute :: "world \<Rightarrow> string \<Rightarrow> int \<Rightarrow> int \<Rightarrow> (error + string) \<times> world" where
  "compute w input_path N B =
     (let sol_path = student_path w;
          w1 = w\<lparr>files := (files w)(sol_path \<mapsto> [])\<rparr>
      in if N < 0 then (Inl BadAlloc, w1)
         else if B < 0 then (Inl BadAlloc, w1)
         else
           (let input_data = read_ints (files w1) input_path (nat N);
                d_histogram = replicate (nat B) 0
            in case plan_grid (numSMs_of (gpu w)) N of Inl e \<Rightarrow> (Inl e, w1)
               | Inr gridSize \<Rightarrow>
                   (case run_kernel w gridSize (wrap32 (B * 4)) input_data d_histogram N B
                    of Inl e \<Rightarrow> (Inl e, w1)
                    | Inr histogram \<Rightarrow>
                        (Inr sol_path, w1\<lparr>files := (files w1)(sol_path \<mapsto> histogram)\<rparr>))))"

section \<open>The harness\<close>

text \<open>
  \<^verbatim>\<open>tester/tester.cpp\<close>.  A run ends with an exit code and what it has written to
  standard output and standard error, line by line, or it has left defined behaviour
  (\<open>Undefined\<close>: an index outside the reference histogram, a failure of the kernel
  model, an argument that \<^verbatim>\<open>atoi\<close> cannot represent, a random distribution over an
  empty range).  Inside the \<^verbatim>\<open>try\<close> block a step either goes on, or calls
  \<^verbatim>\<open>__terminate_gracefully\<close>, or throws a \<^verbatim>\<open>std::exception\<close> with its
  \<^verbatim>\<open>what()\<close> text; each step returns the standard output so far.  The random
  generator is a parameter: \<open>draw i\<close> is the \<open>i\<close>-th value drawn.  The elapsed time is a
  parameter as well.
\<close>

datatype outcome = Exit int "string list" "string list" | Undefined

datatype stop = Graceful string | Thrown string | Broken

type_synonym 'a step = "(stop + 'a) \<times> string list"

definition terminate_gracefully :: "string \<Rightarrow> string list \<Rightarrow> outcome" where
  "terminate_gracefully msg out = Exit 0 (out @ [''-1'']) [msg]"

function nat_to_string :: "nat \<Rightarrow> string" where
  "nat_to_string n =
     (if n < 10 then [char_of (48 + n)]
      else nat_to_string (n div 10) @ [char_of (48 + n mod 10)])"
  by pat_completeness auto
termination
  by (relation "measure id") auto

definition to_string :: "int \<Rightarrow> string" where
  "to_string i = (if i < 0 then CHR ''-'' # nat_to_string (nat (- i)) else nat_to_string (nat i))"

definition is_digit :: "char \<Rightarrow> bool" where
  "is_digit c \<longleftrightarrow> 48 \<le> (of_char c :: nat) \<and> (of_char c :: nat) \<le> 57"

definition is_space :: "char \<Rightarrow> bool" where
  "is_space c \<longleftrightarrow> c = CHR '' '' \<or> (9 \<le> (of_char c :: nat) \<and> (of_char c :: nat) \<le> 13)"

fun digits_value :: "string \<Rightarrow> int \<Rightarrow> int" where
  "digits_value [] acc = acc"
| "digits_value (c # cs) acc =
     (if is_digit c then digits_value cs (acc * 10 + (int (of_char c) - 48)) else acc)"

text \<open>\<^verbatim>\<open>std::atoi\<close>; \<open>None\<close> when the value does not fit \<^verbatim>\<open>int\<close>, which C leaves undefined.\<close>

definition atoi :: "string \<Rightarrow> int option" where
  "atoi s =
     (let t = dropWhile is_space s;
          v = (case t of [] \<Rightarrow> 0
               | c # cs \<Rightarrow> if c = CHR ''-'' then - digits_value cs 0
                           else if c = CHR ''+'' then digits_value cs 0
                           else digits_value t 0)
      in if INT_MIN \<le> v \<and> v \<le> INT_MAX then Some v else None)"

text \<open>The lambda \<^verbatim>\<open>gen_input\<close>, lines 43 to 57.\<close>

definition gen_input ::
  "world \<Rightarrow> (nat \<Rightarrow> int) \<Rightarrow> int \<Rightarrow> string \<Rightarrow> int \<Rightarrow> string list \<Rightarrow> (int list \<times> world) step" where
  "gen_input w draw B file_path sz out =
     (if sz < 0 then (Inl (Thrown ''std::bad_array_new_length''), out)
      else if files w file_path \<noteq> None then
        (Inr (read_ints (files w) file_path (nat sz), w),
         out @ [CHR 0x09 # ''- Input file: '' @ file_path @ '' found, using existing input file''])
      else if 0 < sz \<and> B < 1 then
        (Inl Broken, out @ [CHR 0x09 # ''- Input file not found. Creating new test data: '' @ file_path])
      else
        (let data = map draw [0..<nat sz]
         in (Inr (data, w\<lparr>files := (files w)(file_path \<mapsto> data)\<rparr>),
             out @ [CHR 0x09 # ''- Input file not found. Creating new test data: '' @ file_path])))"

text \<open>The reference histogram of the harness, lines 70 to 75: no filter on the sample.\<close>

definition reference_histogram :: "int list \<Rightarrow> int \<Rightarrow> int \<Rightarrow> error + int list" where
  "reference_histogram input_data N B =
     for_stride 0 N (int32 1)
       (\<lambda>i h. case load input_data i of Inl e \<Rightarrow> Inl e | Inr v \<Rightarrow> increment h v)
       (replicate (nat B) 0)"

definition make_reference ::
  "world \<Rightarrow> int list \<Rightarrow> string \<Rightarrow> int \<Rightarrow> int \<Rightarrow> string list \<Rightarrow> world step" where
  "make_reference w input_data sol_path N B out =
     (if files w sol_path \<noteq> None then
        (Inr w, out @ [''[3/4] Verification file found, using existing verification data''])
      else
        (let out' = out @ [''[3/4] Verification file not found. Creating new verification data'']
         in if B < 0 then (Inl (Thrown ''std::bad_array_new_length''), out')
            else (case reference_histogram input_data N B of
                    Inl e \<Rightarrow> (Inl Broken, out')
                  | Inr histogram \<Rightarrow>
                      (Inr (w\<lparr>files := (files w)(sol_path \<mapsto> histogram)\<rparr>), out'))))"

text \<open>The comparison loop, lines 99 to 105: the first differing bin ends the run.\<close>

fun first_mismatch :: "int list \<Rightarrow> int list \<Rightarrow> nat \<Rightarrow> (nat \<times> int \<times> int) option" where
  "first_mismatch (x # xs) (y # ys) i =
     (if x \<noteq> y then Some (i, x, y) else first_mismatch xs ys (Suc i))"
| "first_mismatch _ _ i = None"

definition verify :: "world \<Rightarrow> string \<Rightarrow> string \<Rightarrow> int \<Rightarrow> string list \<Rightarrow> unit step" where
  "verify w sol_path student_sol_path B out =
     (if B < 0 then (Inl (Thrown ''std::bad_array_new_length''), out)
      else
        (case first_mismatch (read_ints (files w) sol_path (nat B))
                (read_ints (files w) student_sol_path (nat B)) 0 of
           Some (i, expected, got) \<Rightarrow>
             (Inl (Graceful (''Histogram mismatch at bin '' @ to_string (int i)
                     @ '': expected '' @ to_string expected @ '', got '' @ to_string got)), out)
         | None \<Rightarrow> (Inr (), out)))"

text \<open>The body of the \<^verbatim>\<open>try\<close> block, lines 27 to 108.\<close>

definition try_block ::
  "world \<Rightarrow> string list \<Rightarrow> (nat \<Rightarrow> int) \<Rightarrow> int \<Rightarrow> unit step" where
  "try_block w argv draw elapsed =
     (if length argv < 3 then
        (Inl (Graceful ''Usage: ./tester.out <N> <B> <optional:seed>''), [])
      else
        (case (atoi (argv ! 1), atoi (argv ! 2)) of
           (Some N, Some B) \<Rightarrow>
             (let input_path = path_append (temp_directory w) (''input-'' @ to_string N @ ''.dat'');
                  out1 = [''[1/4] Looking for input file'']
              in case gen_input w draw B input_path N out1 of
                   (Inl s, out2) \<Rightarrow> (Inl s, out2)
                 | (Inr (input_data, w2), out2) \<Rightarrow>
              (let sol_path = path_append (temp_directory w)
                     (''sol-'' @ to_string N @ ''-'' @ to_string B @ ''.dat'');
                   out3 = out2 @ [''[2/4] Looking for verification file '' @ sol_path]
               in case make_reference w2 input_data sol_path N B out3 of
                    (Inl s, out4) \<Rightarrow> (Inl s, out4)
                  | (Inr w4, out4) \<Rightarrow>
              (let out5 = out4 @ [''[4/4] Running student solution'']
               in case compute w4 input_path N B of
                    (Inl BadAlloc, w5) \<Rightarrow> (Inl (Thrown ''std::bad_array_new_length''), out5)
                  | (Inl e, w5) \<Rightarrow> (Inl Broken, out5)
                  | (Inr student_sol_path, w5) \<Rightarrow>
              (case verify w5 sol_path student_sol_path B out5 of
                 (Inl s, out6) \<Rightarrow> (Inl s, out6)
               | (Inr u, out6) \<Rightarrow>
                   (Inr (), out6 @ [''Execution time: '' @ to_string elapsed @ '' ms''])))))
         | _ \<Rightarrow> (Inl Broken, [])))"

text \<open>
  \<^verbatim>\<open>main\<close>, lines 19 to 114: a call of \<^verbatim>\<open>__terminate_gracefully\<close> and a caught
  exception both end in \<^verbatim>\<open>__terminate_gracefully\<close>, which exits with
  \<^verbatim>\<open>EXIT_SUCCESS\<close>; otherwise \<^verbatim>\<open>main\<close> returns \<^verbatim>\<open>EXIT_SUCCESS\<close>.
\<close>

definition main :: "world \<Rightarrow> string list \<Rightarrow> (nat \<Rightarrow> int) \<Rightarrow> int \<Rightarrow> outcome" where
  "main w argv draw elapsed =
     (case try_block w argv draw elapsed of
        (Inl (Graceful msg), out) \<Rightarrow> terminate_gracefully msg out
      | (Inl (Thrown what), out) \<Rightarrow> terminate_gracefully what out
      | (Inl Broken, out) \<Rightarrow> Undefined
      | (Inr u, out) \<Rightarrow> Exit 0 out [])"

section \<open>Counting samples\<close>

text \<open>
  The vocabulary of the properties.  \<open>bump x c\<close> is the content of an \<^verbatim>\<open>int\<close> cell
  that held \<open>x\<close> after atomic additions that sum to \<open>c\<close>, none of them made when \<open>c\<close>
  is zero.  \<open>tally sample V v\<close> counts the positions in \<open>V\<close> whose sample is \<open>v\<close>.
  \<open>lane t d n\<close> are the positions below \<open>n\<close> that a loop starting at \<open>t\<close> with step
  \<open>d\<close> visits, and \<open>lanes a b d n\<close> the positions of the lanes from \<open>a\<close> up to, not
  including, \<open>b\<close>.
\<close>

definition bump :: "int \<Rightarrow> int \<Rightarrow> int" where
  "bump x c = (if c = 0 then x else wrap32 (x + c))"

definition tally :: "(int \<Rightarrow> int) \<Rightarrow> int set \<Rightarrow> int \<Rightarrow> int" where
  "tally sample V v = int (card {k \<in> V. sample k = v})"

definition lane :: "int \<Rightarrow> int \<Rightarrow> int \<Rightarrow> int set" where
  "lane t d n = {k. 0 \<le> k \<and> k < n \<and> k mod d = t}"

definition lanes :: "int \<Rightarrow> int \<Rightarrow> int \<Rightarrow> int \<Rightarrow> int set" where
  "lanes a b d n = {k. 0 \<le> k \<and> k < n \<and> a \<le> k mod d \<and> k mod d < b}"

definition bumped :: "int list \<Rightarrow> (nat \<Rightarrow> int) \<Rightarrow> int list \<Rightarrow> bool" where
  "bumped h0 c h \<longleftrightarrow> length h = length h0 \<and> (\<forall>j<length h0. h ! j = bump (h0 ! j) (c j))"

text \<open>The state of the global histogram after the threads below \<open>g\<close> have run.\<close>

definition naive_inv :: "8 word list \<Rightarrow> int list \<Rightarrow> int \<Rightarrow> int \<Rightarrow> int list \<Rightarrow> bool" where
  "naive_inv input h0 N g h \<longleftrightarrow>
     bumped h0 (\<lambda>j. tally (\<lambda>k. uint (input ! nat k)) {0..<min g N} (int j)) h"

text \<open>
  The state of a thread of the hierarchical kernel, its private counters and the shared
  accumulator, after it has classified the samples at the positions \<open>V\<close>; \<open>sh0\<close> is
  the shared accumulator at the start of the thread.
\<close>

definition optimized_inv ::
  "(int \<Rightarrow> int) \<Rightarrow> int \<Rightarrow> int list \<Rightarrow> int set \<Rightarrow> int list \<times> int list \<Rightarrow> bool" where
  "optimized_inv f numBins sh0 V st \<longleftrightarrow>
     (case st of (lh, sh) \<Rightarrow>
        length lh = 32
        \<and> (\<forall>j<32. lh ! j = (if int j < numBins then tally f V (int j) else 0))
        \<and> bumped sh0 (\<lambda>j. if 32 \<le> j \<and> int j < numBins then tally f V (int j) else 0) sh)"

section \<open>Histograms and well-formed launches\<close>

text \<open>
  \<open>spec_histogram samples B\<close> is the histogram in the words of the specification:
  \<open>B\<close> bins, and bin \<open>b\<close> holds the number of samples equal to \<open>b\<close>.  \<open>in_range B v\<close> is the filter
  \<^verbatim>\<open>value >= 0 && value < numBins\<close>.
\<close>

definition spec_histogram :: "int list \<Rightarrow> int \<Rightarrow> int list" where
  "spec_histogram samples B = map (\<lambda>b. int (count_list samples (int b))) [0..<nat B]"

definition in_range :: "int \<Rightarrow> int \<Rightarrow> bool" where
  "in_range B v \<longleftrightarrow> 0 \<le> v \<and> v < B"

text \<open>
  The footprint invariant in the words of the specification: the shared-memory request
  \<open>B * sizeof(count)\<close> does not exceed the on-chip memory budget of an execution unit.
\<close>

definition spec_footprint_fits :: "device \<Rightarrow> int \<Rightarrow> bool" where
  "spec_footprint_fits dev B \<longleftrightarrow> B * 4 \<le> sharedMemPerBlock dev"

text \<open>
  A launch fits \<open>N\<close> samples and \<open>numBins\<close> bins when it has threads, when the index
  arithmetic of the strided loops stays inside \<^verbatim>\<open>int\<close>, and when the shared memory
  of a block holds \<open>numBins\<close> cells.  A launch covers \<open>N\<close> samples when it has at least
  \<open>N\<close> threads, which the naive kernel needs.
\<close>

definition launch_fits :: "launch \<Rightarrow> int \<Rightarrow> int \<Rightarrow> bool" where
  "launch_fits L N numBins \<longleftrightarrow>
     0 < gridDim L \<and> 0 < blockDim L
     \<and> N + 12 * int (blockDim L * gridDim L) \<le> INT_MAX
     \<and> numBins + int (blockDim L) \<le> INT_MAX + 1
     \<and> numBins \<le> int (sharedMemSize L div 4)"

definition launch_covers :: "launch \<Rightarrow> int \<Rightarrow> bool" where
  "launch_covers L N \<longleftrightarrow>
     N \<le> int (blockDim L * gridDim L) \<and> int (blockDim L * gridDim L) \<le> INT_MAX"

section \<open>Sample inputs\<close>

text \<open>
  A launch of two blocks of three threads with shared memory for four bins, one of four
  blocks of three threads, one of a single thread, and one whose shared memory has eight
  cells; uninitialised shared memory reads as 7.  The samples are the first scenario of the specification.  The device is a
  V100: 80 multiprocessors, 48 KiB of shared memory for a block.
\<close>

definition stale :: "nat \<Rightarrow> nat \<Rightarrow> int" where
  "stale bx i = 7"

definition launch_2x3 :: launch where
  "launch_2x3 = \<lparr>gridDim = 2, blockDim = 3, sharedMemSize = 16, uninit = stale\<rparr>"

definition launch_4x3 :: launch where
  "launch_4x3 = \<lparr>gridDim = 4, blockDim = 3, sharedMemSize = 16, uninit = stale\<rparr>"

definition launch_1x1 :: launch where
  "launch_1x1 = \<lparr>gridDim = 1, blockDim = 1, sharedMemSize = 16, uninit = stale\<rparr>"

definition launch_wide :: launch where
  "launch_wide = \<lparr>gridDim = 2, blockDim = 3, sharedMemSize = 32, uninit = stale\<rparr>"

definition scenario :: "int list" where
  "scenario = [0, 1, 1, 2, 3, 3, 3, 0, 2, 1]"

definition scenario_bytes :: "8 word list" where
  "scenario_bytes = [0, 1, 1, 2, 3, 3, 3, 0, 2, 1]"

definition V100 :: device where
  "V100 = \<lparr>deviceCount = 1, multiProcessorCount = 80, sharedMemPerBlock = 49152\<rparr>"

definition lab :: world where
  "lab = \<lparr>temp_directory = ''/tmp'', files = Map.empty(''/tmp/input-10.dat'' \<mapsto> scenario),
          gpu = V100, junk = stale\<rparr>"

section \<open>Properties of the Launch Planner\<close>

lemma int32_fits: "INT_MIN \<le> x \<Longrightarrow> x \<le> INT_MAX \<Longrightarrow> int32 x = Inr x"
  by (simp add: int32_def)

lemma sdiv_nonneg: "0 \<le> a \<Longrightarrow> 0 < b \<Longrightarrow> a sdiv b = a div (b::int)"
  by (cases "a = 0") (simp_all add: signed_divide_int_def)

lemma ceil_div_round_up:
  fixes a b :: int
  assumes "0 < b"
  shows "(a + (b - 1)) div b = ceil_div a b"
proof (cases "a mod b = 0")
  case True
  then obtain q where q: "a = b * q" by auto
  have "(b * q + (b - 1)) div b = q"
    using assms by (intro int_div_pos_eq[where r = "b - 1"]) auto
  moreover have "(- (b * q)) div b = - q"
    using assms by (intro int_div_pos_eq[where r = 0]) auto
  ultimately show ?thesis by (simp add: q ceil_div_def)
next
  case False
  define q where "q = a div b"
  define r where "r = a mod b"
  have a: "a = b * q + r" by (simp add: q_def r_def)
  have r: "0 < r" "r < b" using False assms by (auto simp: r_def intro: le_neq_trans)
  have "(a + (b - 1)) div b = q + 1"
    using r by (intro int_div_pos_eq[where r = "r - 1"]) (auto simp: a algebra_simps)
  moreover have "(- a) div b = - q - 1"
    using r by (intro int_div_pos_eq[where r = "b - r"]) (auto simp: a algebra_simps)
  ultimately show ?thesis by (simp add: ceil_div_def)
qed

lemma occupancy_grid_fits:
  assumes "0 \<le> numSMs" "numSMs \<le> 1048575"
  shows "occupancy_grid numSMs = Inr (ceil_div (numSMs * 2048) 1024)"
proof -
  have "(numSMs * 2048 + 1024 - 1) sdiv 1024 = (numSMs * 2048 + (1024 - 1)) div 1024"
    using assms by (simp add: sdiv_nonneg)
  then have "(numSMs * 2048 + 1024 - 1) sdiv 1024 = ceil_div (numSMs * 2048) 1024"
    by (simp only: ceil_div_round_up)
  then show ?thesis
    using assms
    by (simp add: occupancy_grid_def int32_def INT_MAX_def INT_MIN_def blockSize_def)
qed

lemma maxGridSize_fits:
  assumes "0 \<le> N" "N \<le> 2147471359"
  shows "maxGridSize N = Inr (ceil_div N (1024 * 12))"
proof -
  have "(N + 12288 - 1) sdiv 12288 = (N + (12288 - 1)) div 12288"
    using assms by (simp add: sdiv_nonneg)
  then have "(N + 12288 - 1) sdiv 12288 = ceil_div N 12288"
    by (simp only: ceil_div_round_up)
  then show ?thesis
    using assms
    by (simp add: maxGridSize_def int32_def INT_MAX_def INT_MIN_def blockSize_def)
qed

lemma plan_grid_fits:
  assumes "0 \<le> numSMs" "numSMs \<le> 1048575" "0 \<le> N" "N \<le> 2147471359"
  shows "plan_grid numSMs N = Inr (spec_unit_count numSMs N)"
  using assms
  by (simp add: plan_grid_def occupancy_grid_fits maxGridSize_fits spec_unit_count_def min_def)

section \<open>Loop rules\<close>

lemma for_each_invariant:
  assumes "I 0 s"
    and "\<And>k s. k < length xs \<Longrightarrow> I k s \<Longrightarrow> \<exists>s'. f (xs ! k) s = Inr s' \<and> I (Suc k) s'"
  shows "\<exists>s'. for_each f xs s = Inr s' \<and> I (length xs) s'"
  using assms
proof (induction xs arbitrary: I s)
  case Nil
  then show ?case by simp
next
  case (Cons x xs)
  from Cons.prems(2)[of 0 s] Cons.prems(1)
  obtain s1 where s1: "f x s = Inr s1" "I (Suc 0) s1" by auto
  have "\<exists>s'. for_each f xs s1 = Inr s' \<and> I (Suc (length xs)) s'"
  proof (rule Cons.IH[where I = "\<lambda>k. I (Suc k)"])
    show "I (Suc 0) s1" by (rule s1)
  next
    fix k s assume "k < length xs" "I (Suc k) s"
    then show "\<exists>s'. f (xs ! k) s = Inr s' \<and> I (Suc (Suc k)) s'"
      using Cons.prems(2)[of "Suc k" s] by simp
  qed
  then show ?case by (simp add: s1)
qed

lemma for_each_upt_invariant:
  assumes "I 0 s"
    and "\<And>k s. k < n \<Longrightarrow> I k s \<Longrightarrow> \<exists>s'. f k s = Inr s' \<and> I (Suc k) s'"
  shows "\<exists>s'. for_each f [0..<n] s = Inr s' \<and> I n s'"
  using for_each_invariant[of I s "[0..<n]" f] assms by simp

lemma collect_total:
  assumes "\<And>k. k < length xs \<Longrightarrow> \<exists>y. f (xs ! k) = Inr y"
  shows "\<exists>ys. collect f xs = Inr ys \<and> length ys = length xs
           \<and> (\<forall>k<length xs. f (xs ! k) = Inr (ys ! k))"
  using assms
proof (induction xs)
  case Nil
  then show ?case by simp
next
  case (Cons x xs)
  from Cons.prems[of 0] obtain y where y: "f x = Inr y" by auto
  have "\<exists>ys. collect f xs = Inr ys \<and> length ys = length xs
           \<and> (\<forall>k<length xs. f (xs ! k) = Inr (ys ! k))"
    using Cons.prems[of "Suc k" for k] by (intro Cons.IH) auto
  then obtain ys where ys: "collect f xs = Inr ys" "length ys = length xs"
    "\<forall>k<length xs. f (xs ! k) = Inr (ys ! k)" by blast
  have "\<forall>k<length (x # xs). f ((x # xs) ! k) = Inr ((y # ys) ! k)"
    using y ys(3) by (auto simp: nth_Cons split: nat.splits)
  then show ?case using y ys by simp
qed

lemma for_stride_invariant:
  fixes I :: "int \<Rightarrow> 's \<Rightarrow> bool"
  assumes d: "0 < d" and fits: "limit + d \<le> INT_MAX + 1" and lo: "INT_MIN \<le> i0"
    and init: "I i0 s0"
    and step: "\<And>i s. i0 \<le> i \<Longrightarrow> i < limit \<Longrightarrow> (i - i0) mod d = 0 \<Longrightarrow> I i s
                 \<Longrightarrow> \<exists>s'. body i s = Inr s' \<and> I (i + d) s'"
  shows "\<exists>s' j. for_stride i0 limit (Inr d) body s0 = Inr s' \<and> I j s' \<and> limit \<le> j \<and> i0 \<le> j"
proof -
  have "i0 \<le> i \<Longrightarrow> (i - i0) mod d = 0 \<Longrightarrow> I i s
      \<Longrightarrow> \<exists>s' j. for_stride i limit (Inr d) body s = Inr s' \<and> I j s' \<and> limit \<le> j \<and> i0 \<le> j"
    for i s
  proof (induction "nat (limit - i)" arbitrary: i s rule: less_induct)
    case less
    show ?case
    proof (cases "i < limit")
      case False
      then show ?thesis using less.prems by (subst for_stride.simps) auto
    next
      case True
      from step[OF less.prems(1) True less.prems(2) less.prems(3)]
      obtain s1 where s1: "body i s = Inr s1" "I (i + d) s1"
        by auto
      have i32: "int32 (i + d) = Inr (i + d)"
        using True fits lo less.prems(1) d by (simp add: int32_def INT_MIN_def)
      have m: "(i + d - i0) mod d = 0"
        using less.prems(2) by (metis add_diff_eq add.commute mod_add_self1)
      have "nat (limit - (i + d)) < nat (limit - i)"
        using True d by simp
      from less.hyps[OF this _ m s1(2)] less.prems(1) d
      have "\<exists>s' j. for_stride (i + d) limit (Inr d) body s1 = Inr s' \<and> I j s' \<and> limit \<le> j \<and> i0 \<le> j"
        by simp
      then show ?thesis
        using True s1 i32 d by (subst for_stride.simps) auto
    qed
  qed
  from this[of i0 s0] init show ?thesis by simp
qed

section \<open>Wrap-around, tallies and lanes\<close>

lemma wrap32_id: "INT_MIN \<le> x \<Longrightarrow> x \<le> INT_MAX \<Longrightarrow> wrap32 x = x"
  by (simp add: wrap32_def INT_MIN_def INT_MAX_def)

lemma wrap32_add_left: "wrap32 (wrap32 a + b) = wrap32 (a + b)"
proof -
  have "(wrap32 a + b + 2147483648) mod 4294967296
      = ((a + 2147483648) mod 4294967296 + b) mod 4294967296"
    by (simp add: wrap32_def algebra_simps)
  also have "\<dots> = (a + 2147483648 + b) mod 4294967296"
    by (rule mod_add_left_eq)
  finally show ?thesis
    by (simp add: wrap32_def algebra_simps)
qed

lemma bump_zero [simp]: "bump x 0 = x"
  by (simp add: bump_def)

lemma bump_add: "0 \<le> a \<Longrightarrow> 0 \<le> b \<Longrightarrow> bump (bump x a) b = bump x (a + b)"
  by (auto simp: bump_def wrap32_add_left add.assoc)

lemma bump_step: "0 \<le> c \<Longrightarrow> 0 < v \<Longrightarrow> wrap32 (bump x c + v) = bump x (c + v)"
  using bump_add[of c v x] by (simp add: bump_def)

lemma bump_exact:
  "0 \<le> c \<Longrightarrow> INT_MIN \<le> x + c \<Longrightarrow> x + c \<le> INT_MAX \<Longrightarrow> bump x c = x + c"
  by (simp add: bump_def wrap32_id)

lemma tally_nonneg [simp]: "0 \<le> tally f V v"
  by (simp add: tally_def)

lemma tally_empty [simp]: "tally f {} v = 0"
  by (simp add: tally_def)

lemma tally_insert:
  assumes "finite V" "k \<notin> V"
  shows "tally f (insert k V) v = tally f V v + (if f k = v then 1 else 0)"
proof (cases "f k = v")
  case True
  have fin: "finite {i \<in> V. f i = v}" using assms(1) by simp
  have new: "k \<notin> {i \<in> V. f i = v}" using assms(2) by simp
  have "{i \<in> insert k V. f i = v} = insert k {i \<in> V. f i = v}"
    using True by auto
  then have "card {i \<in> insert k V. f i = v} = Suc (card {i \<in> V. f i = v})"
    using card_insert_disjoint[OF fin new] by simp
  then show ?thesis using True by (simp add: tally_def)
next
  case False
  then have "{i \<in> insert k V. f i = v} = {i \<in> V. f i = v}" by auto
  then show ?thesis using False by (simp add: tally_def)
qed

lemma tally_union:
  assumes "finite V" "finite W" "V \<inter> W = {}"
  shows "tally f (V \<union> W) v = tally f V v + tally f W v"
proof -
  have "{i \<in> V \<union> W. f i = v} = {i \<in> V. f i = v} \<union> {i \<in> W. f i = v}" by auto
  moreover have "{i \<in> V. f i = v} \<inter> {i \<in> W. f i = v} = {}" using assms(3) by auto
  ultimately show ?thesis
    using assms(1,2) by (simp add: tally_def card_Un_disjoint)
qed

lemma tally_le_card: "finite V \<Longrightarrow> tally f V v \<le> int (card V)"
  by (simp add: tally_def card_mono)

lemma finite_lane [simp]: "finite (lane t d n)"
  by (rule finite_subset[of _ "{0..<n}"]) (auto simp: lane_def)

lemma finite_lanes [simp]: "finite (lanes a b d n)"
  by (rule finite_subset[of _ "{0..<n}"]) (auto simp: lanes_def)

lemma lanes_empty [simp]: "lanes a a d n = {}"
  by (auto simp: lanes_def)

lemma lanes_all: "0 < d \<Longrightarrow> lanes 0 d d n = {0..<n}"
  by (auto simp: lanes_def)

lemma lanes_Suc: "a \<le> b \<Longrightarrow> lanes a (b + 1) d n = lanes a b d n \<union> lane b d n"
  by (auto simp: lanes_def lane_def)

lemma lanes_lane_disjoint: "lanes a b d n \<inter> lane b d n = {}"
  by (auto simp: lanes_def lane_def)

lemma lanes_append: "a \<le> b \<Longrightarrow> b \<le> c \<Longrightarrow> lanes a c d n = lanes a b d n \<union> lanes b c d n"
  by (auto simp: lanes_def)

lemma lanes_disjoint: "lanes a b d n \<inter> lanes b c d n = {}"
  by (auto simp: lanes_def)

lemma lane_subset: "lane t d n \<subseteq> {0..<n}"
  by (auto simp: lane_def)

lemma lanes_subset: "lanes a b d n \<subseteq> {0..<n}"
  by (auto simp: lanes_def)

lemma lane_start:
  assumes "0 \<le> t" "t < d"
  shows "{k \<in> lane t d n. k < t} = {}"
proof -
  have False if "0 \<le> k" "k mod d = t" "k < t" for k
  proof -
    have "k mod d = k" using that assms by simp
    with that show False by simp
  qed
  then show ?thesis by (auto simp: lane_def)
qed

lemma lane_next:
  assumes "0 < d" "0 \<le> i" "i mod d = t"
  shows "{k \<in> lane t d n. k < i + d} = (if i < n then insert i {k \<in> lane t d n. k < i}
                                         else {k \<in> lane t d n. k < i})"
proof -
  have eq: "k = i" if "k mod d = t" "i \<le> k" "k < i + d" for k
  proof -
    have "d dvd k - i"
      using mod_eq_dvd_iff[of k d i] that(1) assms(3) by simp
    then have "(k - i) mod d = 0" by simp
    moreover have "0 \<le> k - i" "k - i < d" using that by simp_all
    ultimately show ?thesis by simp
  qed
  show ?thesis
  proof (cases "i < n")
    case True
    have "k < i" if "k \<noteq> i" "k mod d = t" "k < i + d" for k
      using eq[of k] that by force
    then show ?thesis using True assms by (auto simp: lane_def)
  next
    case False
    then show ?thesis using assms by (auto simp: lane_def)
  qed
qed

lemma lane_done: "n \<le> j \<Longrightarrow> {k \<in> lane t d n. k < j} = lane t d n"
  by (auto simp: lane_def)

lemma lane_member_new: "i \<notin> {k \<in> lane t d n. k < i}"
  by simp

lemma step_residue:
  fixes i t d :: int
  assumes "0 \<le> t" "t < d" "(i - t) mod d = 0"
  shows "i mod d = t"
proof -
  have "d dvd i - t" using assms(3) by auto
  then have "i mod d = t mod d" by (simp add: mod_eq_dvd_iff)
  then show ?thesis using assms(1,2) by simp
qed

lemma bumped_refl: "bumped h (\<lambda>_. 0) h"
  by (simp add: bumped_def)

lemma bumped_trans:
  assumes "bumped h0 c1 h1" "bumped h1 c2 h2" "\<And>j. 0 \<le> c1 j" "\<And>j. 0 \<le> c2 j"
  shows "bumped h0 (\<lambda>j. c1 j + c2 j) h2"
  using assms by (simp add: bumped_def bump_add)

lemma bumped_cong: "bumped h0 c h \<Longrightarrow> (\<And>j. j < length h0 \<Longrightarrow> c j = c' j) \<Longrightarrow> bumped h0 c' h"
  by (simp add: bumped_def)

section \<open>Memory operations\<close>

lemma load_ok: "0 \<le> i \<Longrightarrow> nat i < length mem \<Longrightarrow> load mem i = Inr (mem ! nat i)"
  by (simp add: load_def)

lemma store_ok: "0 \<le> i \<Longrightarrow> nat i < length mem \<Longrightarrow> store mem i v = Inr (mem[nat i := v])"
  by (simp add: store_def)

lemma atomicAdd_ok:
  "0 \<le> i \<Longrightarrow> nat i < length mem
    \<Longrightarrow> atomicAdd mem i v = Inr (mem[nat i := wrap32 (mem ! nat i + v)])"
  by (simp add: atomicAdd_def)

text \<open>
  Two atomic additions give the same memory in either order, which is why the order in
  which the model runs the threads does not matter for the cells they share.
\<close>

lemma atomicAdd_commute:
  "(case atomicAdd mem i a of Inl e \<Rightarrow> Inl e | Inr m \<Rightarrow> atomicAdd m j b)
     = (case atomicAdd mem j b of Inl e \<Rightarrow> Inl e | Inr m \<Rightarrow> atomicAdd m i a)"
proof (cases "0 \<le> i \<and> nat i < length mem \<and> 0 \<le> j \<and> nat j < length mem")
  case False
  then show ?thesis by (auto simp: atomicAdd_def)
next
  case True
  show ?thesis
  proof (cases "i = j")
    case same: True
    have "wrap32 (wrap32 (mem ! nat j + a) + b) = wrap32 (mem ! nat j + a + b)"
      by (rule wrap32_add_left)
    also have "\<dots> = wrap32 (mem ! nat j + b + a)"
      by (simp only: add.assoc add.commute[of a b])
    also have "\<dots> = wrap32 (wrap32 (mem ! nat j + b) + a)"
      by (rule wrap32_add_left[symmetric])
    finally have "wrap32 (wrap32 (mem ! nat j + a) + b) = wrap32 (wrap32 (mem ! nat j + b) + a)" .
    then show ?thesis using True same by (simp add: atomicAdd_def)
  next
    case False
    then have "nat i \<noteq> nat j" using True by auto
    then show ?thesis using True by (simp add: atomicAdd_def list_update_swap)
  qed
qed

lemma bumped_length: "bumped h0 c h \<Longrightarrow> length h = length h0"
  by (simp add: bumped_def)

text \<open>One more sample counted by an atomic increment of its bin.\<close>

lemma atomicAdd_tally:
  assumes b: "bumped h0 (\<lambda>j. tally f V (int j)) h"
    and V: "finite V" "k \<notin> V"
    and v: "0 \<le> f k" "nat (f k) < length h0"
  shows "\<exists>h'. atomicAdd h (f k) 1 = Inr h' \<and> bumped h0 (\<lambda>j. tally f (insert k V) (int j)) h'"
proof -
  let ?h' = "h[nat (f k) := wrap32 (h ! nat (f k) + 1)]"
  have len: "length h = length h0" using b by (simp add: bumped_def)
  have run: "atomicAdd h (f k) 1 = Inr ?h'"
    using v len by (simp add: atomicAdd_ok)
  have "?h' ! j = bump (h0 ! j) (tally f (insert k V) (int j))" if j: "j < length h0" for j
  proof (cases "j = nat (f k)")
    case True
    then have fk: "f k = int j" using v(1) by simp
    have "?h' ! j = wrap32 (bump (h0 ! j) (tally f V (int j)) + 1)"
      using True j len b by (simp add: bumped_def)
    also have "\<dots> = bump (h0 ! j) (tally f V (int j) + 1)"
      by (rule bump_step) simp_all
    finally show ?thesis using fk V by (simp add: tally_insert)
  next
    case False
    then have fk: "f k \<noteq> int j" using v(1) by auto
    have "?h' ! j = bump (h0 ! j) (tally f V (int j))"
      using False j len b by (simp add: bumped_def)
    then show ?thesis using fk V by (simp add: tally_insert)
  qed
  then have "bumped h0 (\<lambda>j. tally f (insert k V) (int j)) ?h'"
    using len by (simp add: bumped_def)
  with run show ?thesis by blast
qed

lemma upto_insert: "(0::int) \<le> g \<Longrightarrow> {0..<g + 1} = insert g {0..<g}"
  by auto

lemma thread_id_bound:
  fixes bx tx bd gd :: nat
  assumes "bx < gd" "tx < bd"
  shows "bx * bd + tx < bd * gd"
proof -
  have "bx * bd + tx < bx * bd + bd" using assms(2) by simp
  also have "\<dots> = Suc bx * bd" by simp
  also have "\<dots> \<le> gd * bd" using assms(1) by (intro mult_le_mono1) simp
  finally show ?thesis by (simp add: mult.commute)
qed

lemma global_thread_id_ok:
  assumes "bx < gridDim L" "tx < blockDim L" "int (blockDim L * gridDim L) \<le> INT_MAX"
  shows "global_thread_id L bx tx = Inr (int (bx * blockDim L + tx))"
proof -
  have "int (bx * blockDim L + tx) < int (blockDim L * gridDim L)"
    using thread_id_bound[OF assms(1,2)] by (simp only: of_nat_less_iff)
  moreover have "0 \<le> int (bx * blockDim L + tx)" by (rule of_nat_0_le_iff)
  ultimately show ?thesis
    using assms(3)
    by (simp add: global_thread_id_def int32_def INT_MIN_def del: of_nat_add of_nat_mult)
qed

section \<open>Loops over lanes and over bins\<close>

lemma for_stride_lane:
  fixes Q :: "int set \<Rightarrow> 's \<Rightarrow> bool"
  assumes t: "0 \<le> t" "t < d" and fits: "n + d \<le> INT_MAX + 1"
    and init: "Q V0 s0"
    and step: "\<And>k s. k \<in> lane t d n \<Longrightarrow> Q (V0 \<union> {j \<in> lane t d n. j < k}) s
                 \<Longrightarrow> \<exists>s'. body k s = Inr s' \<and> Q (insert k (V0 \<union> {j \<in> lane t d n. j < k})) s'"
  shows "\<exists>s'. for_stride t n (Inr d) body s0 = Inr s' \<and> Q (V0 \<union> lane t d n) s'"
proof -
  let ?I = "\<lambda>i s. Q (V0 \<union> {j \<in> lane t d n. j < i}) s"
  have d: "0 < d" using t by simp
  have "\<exists>s' j. for_stride t n (Inr d) body s0 = Inr s' \<and> ?I j s' \<and> n \<le> j \<and> t \<le> j"
  proof (rule for_stride_invariant[where I = ?I, OF d fits])
    show "INT_MIN \<le> t" using t by (simp add: INT_MIN_def)
    show "?I t s0" using init t by (simp add: lane_start)
  next
    fix i s assume i: "t \<le> i" "i < n" "(i - t) mod d = 0" and inv: "?I i s"
    have res: "i mod d = t" by (rule step_residue[OF t i(3)])
    have i0: "0 \<le> i" using i(1) t(1) by simp
    have mem: "i \<in> lane t d n" using i0 i(2) res by (simp add: lane_def)
    have nxt: "{j \<in> lane t d n. j < i + d} = insert i {j \<in> lane t d n. j < i}"
      using lane_next[OF d i0 res, of n] i(2) by simp
    from step[OF mem inv] show "\<exists>s'. body i s = Inr s' \<and> ?I (i + d) s'"
      by (simp add: nxt)
  qed
  then show ?thesis by (auto simp: lane_done)
qed

lemma bins_loop:
  fixes Q :: "int set \<Rightarrow> 's \<Rightarrow> bool"
  assumes bd: "0 < bd" and fits: "numBins + int bd \<le> INT_MAX + 1"
    and init: "Q {} s0"
    and step: "\<And>k V s. 0 \<le> k \<Longrightarrow> k < numBins \<Longrightarrow> k \<notin> V \<Longrightarrow> finite V \<Longrightarrow> Q V s
                 \<Longrightarrow> \<exists>s'. body k s = Inr s' \<and> Q (insert k V) s'"
  shows "\<exists>s'. for_each (\<lambda>tx. for_stride (int tx) numBins (Inr (int bd)) body) [0..<bd] s0 = Inr s'
           \<and> Q {0..<numBins} s'"
proof -
  let ?I = "\<lambda>tx s. Q (lanes 0 (int tx) (int bd) numBins) s"
  have "\<exists>s'. for_each (\<lambda>tx. for_stride (int tx) numBins (Inr (int bd)) body) [0..<bd] s0 = Inr s'
           \<and> ?I bd s'"
  proof (rule for_each_upt_invariant[where I = ?I])
    show "?I 0 s0" using init by simp
  next
    fix tx s assume tx: "tx < bd" and inv: "?I tx s"
    let ?V0 = "lanes 0 (int tx) (int bd) numBins"
    have "\<exists>s'. for_stride (int tx) numBins (Inr (int bd)) body s = Inr s'
            \<and> Q (?V0 \<union> lane (int tx) (int bd) numBins) s'"
    proof (rule for_stride_lane[where Q = Q, OF _ _ fits inv])
      show "0 \<le> int tx" by simp
      show "int tx < int bd" using tx by simp
    next
      fix k s assume k: "k \<in> lane (int tx) (int bd) numBins"
        and q: "Q (?V0 \<union> {j \<in> lane (int tx) (int bd) numBins. j < k}) s"
      have "k \<notin> ?V0" using k by (simp add: lane_def lanes_def)
      then have new: "k \<notin> ?V0 \<union> {j \<in> lane (int tx) (int bd) numBins. j < k}" by simp
      have fin: "finite (?V0 \<union> {j \<in> lane (int tx) (int bd) numBins. j < k})" by simp
      have k0: "0 \<le> k" and k1: "k < numBins" using k by (simp_all add: lane_def)
      show "\<exists>s'. body k s = Inr s'
          \<and> Q (insert k (?V0 \<union> {j \<in> lane (int tx) (int bd) numBins. j < k})) s'"
        by (rule step[OF k0 k1 new fin q])
    qed
    moreover have "lanes 0 (int (Suc tx)) (int bd) numBins = ?V0 \<union> lane (int tx) (int bd) numBins"
      using lanes_Suc[of 0 "int tx" "int bd" numBins] by (simp add: add.commute)
    ultimately show "\<exists>s'. for_stride (int tx) numBins (Inr (int bd)) body s = Inr s' \<and> ?I (Suc tx) s'"
      by simp
  qed
  moreover have "lanes 0 (int bd) (int bd) numBins = {0..<numBins}"
    using bd by (intro lanes_all) simp
  ultimately show ?thesis by simp
qed

lemma zero_shared_ok:
  assumes bd: "0 < blockDim L" and fits: "numBins + int (blockDim L) \<le> INT_MAX + 1"
    and len: "numBins \<le> int (length sh0)"
  shows "\<exists>sh. zero_shared L numBins sh0 = Inr sh \<and> length sh = length sh0
           \<and> (\<forall>j<length sh0. sh ! j = (if int j < numBins then 0 else sh0 ! j))"
proof -
  let ?Q = "\<lambda>V sh. length sh = length sh0 \<and> (\<forall>j<length sh0. sh ! j = (if int j \<in> V then 0 else sh0 ! j))"
  have "\<exists>sh. for_each (\<lambda>tx. for_stride (int tx) numBins (Inr (int (blockDim L))) (\<lambda>i sh. store sh i 0))
           [0..<blockDim L] sh0 = Inr sh \<and> ?Q {0..<numBins} sh"
  proof (rule bins_loop[where Q = ?Q, OF bd fits])
    show "?Q {} sh0" by simp
  next
    fix k V s assume k: "0 \<le> k" "k < numBins" and q: "?Q V s"
    have "store s k 0 = Inr (s[nat k := 0])"
      using k len q by (intro store_ok) simp_all
    moreover have "?Q (insert k V) (s[nat k := 0])"
    proof -
      have "(s[nat k := 0]) ! j = (if int j \<in> insert k V then 0 else sh0 ! j)"
        if "j < length sh0" for j
      proof (cases "j = nat k")
        case True
        then show ?thesis using that q k by simp
      next
        case False
        then have "int j \<noteq> k" using k by auto
        then show ?thesis using False that q by simp
      qed
      then show ?thesis using q by simp
    qed
    ultimately show "\<exists>s'. store s k 0 = Inr s' \<and> ?Q (insert k V) s'" by blast
  qed
  then obtain sh where sh: "zero_shared L numBins sh0 = Inr sh" "length sh = length sh0"
    "\<forall>j<length sh0. sh ! j = (if int j \<in> {0..<numBins} then 0 else sh0 ! j)"
    unfolding zero_shared_def by blast
  have "\<forall>j<length sh0. sh ! j = (if int j < numBins then 0 else sh0 ! j)"
    using sh(3) by simp
  with sh(1,2) show ?thesis by blast
qed

section \<open>The fold of a shared accumulator into the global histogram\<close>

lemma bumped_atomicAdd:
  assumes b: "bumped h0 c h" and i: "0 \<le> i" "nat i < length h0"
    and c: "0 \<le> c (nat i)" and v: "0 < v"
  shows "atomicAdd h i v = Inr (h[nat i := wrap32 (h ! nat i + v)])
       \<and> bumped h0 (c(nat i := c (nat i) + v)) (h[nat i := wrap32 (h ! nat i + v)])"
proof -
  have len: "length h = length h0" using b by (simp add: bumped_def)
  have "wrap32 (h ! nat i + v) = bump (h0 ! nat i) (c (nat i) + v)"
    using b i(2) bump_step[OF c v] by (simp add: bumped_def)
  then have "bumped h0 (c(nat i := c (nat i) + v)) (h[nat i := wrap32 (h ! nat i + v)])"
    using b len by (simp add: bumped_def nth_list_update)
  then show ?thesis using i len by (simp add: atomicAdd_ok)
qed

lemma flush_shared_ok:
  assumes bd: "0 < blockDim L" and fits: "numBins + int (blockDim L) \<le> INT_MAX + 1"
    and len: "numBins \<le> int (length h0)" "numBins \<le> int (length sh)"
  shows "\<exists>h. flush_shared L numBins sh h0 = Inr h
           \<and> bumped h0 (\<lambda>j. if int j < numBins then max 0 (sh ! j) else 0) h"
proof -
  let ?c = "\<lambda>V j. if int j \<in> V then max 0 (sh ! j) else 0"
  let ?Q = "\<lambda>V h. bumped h0 (?c V) h"
  let ?body = "\<lambda>i h. case load sh i of Inl e \<Rightarrow> Inl e
                 | Inr val \<Rightarrow> if val > 0 then atomicAdd h i val else Inr h"
  have "\<exists>h. for_each (\<lambda>tx. for_stride (int tx) numBins (Inr (int (blockDim L))) ?body)
           [0..<blockDim L] h0 = Inr h \<and> ?Q {0..<numBins} h"
  proof (rule bins_loop[where Q = ?Q, OF bd fits])
    show "?Q {} h0" by (simp add: bumped_def)
  next
    fix k V h assume k: "0 \<le> k" "k < numBins" "k \<notin> V" and q: "?Q V h"
    have ld: "load sh k = Inr (sh ! nat k)" using k len by (intro load_ok) simp_all
    have nk: "nat k < length h0" using k len by simp
    have ck: "?c V (nat k) = 0" using k by simp
    have upd: "(?c V)(nat k := x) = (\<lambda>j. if int j = k then x else ?c V j)" for x
      using k by (auto simp: fun_eq_iff)
    show "\<exists>h'. ?body k h = Inr h' \<and> ?Q (insert k V) h'"
    proof (cases "0 < sh ! nat k")
      case True
      have "?c (insert k V) = (?c V)(nat k := ?c V (nat k) + sh ! nat k)"
        using True k by (auto simp: fun_eq_iff)
      with bumped_atomicAdd[OF q k(1) nk _ True] ck
      have "atomicAdd h k (sh ! nat k) = Inr (h[nat k := wrap32 (h ! nat k + sh ! nat k)])"
        "?Q (insert k V) (h[nat k := wrap32 (h ! nat k + sh ! nat k)])"
        by simp_all
      then show ?thesis using ld True by simp
    next
      case False
      have "?c (insert k V) = ?c V"
        using False k by (auto simp: fun_eq_iff)
      then show ?thesis using ld False q by simp
    qed
  qed
  then obtain h where h: "flush_shared L numBins sh h0 = Inr h" "?Q {0..<numBins} h"
    unfolding flush_shared_def by blast
  have "bumped h0 (\<lambda>j. if int j < numBins then max 0 (sh ! j) else 0) h"
    using h(2) by (rule bumped_cong) simp
  with h(1) show ?thesis by blast
qed

lemma flush_global_ok:
  assumes bd: "0 < blockDim L" and fits: "numBins + int (blockDim L) \<le> INT_MAX + 1"
    and len: "numBins \<le> int (length h0)" "numBins \<le> int (length sh)"
  shows "\<exists>h w. flush_global L numBins sh (h0, w0) = Inr (h, w)
           \<and> bumped h0 (\<lambda>j. if int j < numBins then max 0 (sh ! j) else 0) h
           \<and> set w = set w0 \<union> {k. 0 \<le> k \<and> k < numBins \<and> 0 < sh ! nat k}"
proof -
  let ?c = "\<lambda>V j. if int j \<in> V then max 0 (sh ! j) else 0"
  let ?Q = "\<lambda>V g. bumped h0 (?c V) (fst g) \<and> set (snd g) = set w0 \<union> {k \<in> V. 0 < sh ! nat k}"
  let ?body = "\<lambda>i (histogram, written).
            case load sh i of Inl e \<Rightarrow> Inl e
            | Inr val \<Rightarrow>
                if val > 0 then
                  (case atomicAdd histogram i val of Inl e \<Rightarrow> Inl e
                   | Inr h \<Rightarrow> Inr (h, i # written))
                else Inr (histogram, written)"
  have "\<exists>g. for_each (\<lambda>tx. for_stride (int tx) numBins (Inr (int (blockDim L))) ?body)
           [0..<blockDim L] (h0, w0) = Inr g \<and> ?Q {0..<numBins} g"
  proof (rule bins_loop[where Q = ?Q, OF bd fits])
    show "?Q {} (h0, w0)" by (simp add: bumped_def)
  next
    fix k V g assume k: "0 \<le> k" "k < numBins" "k \<notin> V" and q: "?Q V g"
    obtain h w where g: "g = (h, w)" by (cases g)
    have qh: "bumped h0 (?c V) h" and qw: "set w = set w0 \<union> {k \<in> V. 0 < sh ! nat k}"
      using q g by simp_all
    have ld: "load sh k = Inr (sh ! nat k)" using k len by (intro load_ok) simp_all
    have nk: "nat k < length h0" using k len by simp
    have ck: "?c V (nat k) = 0" using k by simp
    show "\<exists>g'. ?body k g = Inr g' \<and> ?Q (insert k V) g'"
    proof (cases "0 < sh ! nat k")
      case True
      have "?c (insert k V) = (?c V)(nat k := ?c V (nat k) + sh ! nat k)"
        using True k by (auto simp: fun_eq_iff)
      with bumped_atomicAdd[OF qh k(1) nk _ True] ck
      have a: "atomicAdd h k (sh ! nat k) = Inr (h[nat k := wrap32 (h ! nat k + sh ! nat k)])"
        "bumped h0 (?c (insert k V)) (h[nat k := wrap32 (h ! nat k + sh ! nat k)])"
        by simp_all
      have "set (k # w) = set w0 \<union> {i \<in> insert k V. 0 < sh ! nat i}"
        using qw True by auto
      then show ?thesis using ld True a g by simp
    next
      case False
      have "?c (insert k V) = ?c V"
        using False k by (auto simp: fun_eq_iff)
      moreover have "{i \<in> insert k V. 0 < sh ! nat i} = {i \<in> V. 0 < sh ! nat i}"
        using False by auto
      ultimately show ?thesis using ld False qh qw g by simp
    qed
  qed
  then obtain h w where h: "flush_global L numBins sh (h0, w0) = Inr (h, w)" "?Q {0..<numBins} (h, w)"
    unfolding flush_global_def by fastforce
  have hb: "bumped h0 (?c {0..<numBins}) h"
    and hw: "set w = set w0 \<union> {k \<in> {0..<numBins}. 0 < sh ! nat k}"
    using h(2) by simp_all
  have "bumped h0 (\<lambda>j. if int j < numBins then max 0 (sh ! j) else 0) h"
    using hb by (rule bumped_cong) simp
  moreover have "set w = set w0 \<union> {k. 0 \<le> k \<and> k < numBins \<and> 0 < sh ! nat k}"
    using hw by auto
  ultimately show ?thesis using h(1) by blast
qed

section \<open>The naive kernel counts every sample\<close>

lemma naive_thread_step:
  assumes L: "bx < gridDim L" "tx < blockDim L" "int (blockDim L * gridDim L) \<le> INT_MAX"
    and N: "N \<le> int (length input)"
    and rng: "\<And>k. 0 \<le> k \<Longrightarrow> k < N \<Longrightarrow> nat (uint (input ! nat k)) < length h0"
    and inv: "naive_inv input h0 N (int (bx * blockDim L + tx)) h"
  shows "\<exists>h'. naive_thread L input N bx tx h = Inr h'
           \<and> naive_inv input h0 N (int (bx * blockDim L + tx) + 1) h'"
proof -
  let ?g = "int (bx * blockDim L + tx)"
  let ?f = "\<lambda>k. uint (input ! nat k)"
  have gid: "global_thread_id L bx tx = Inr ?g" by (rule global_thread_id_ok[OF L])
  show ?thesis
  proof (cases "?g < N")
    case True
    have g0: "0 \<le> ?g" by (rule of_nat_0_le_iff)
    have ld: "load input ?g = Inr (input ! nat ?g)"
      using True N g0 by (intro load_ok) (simp_all del: of_nat_add of_nat_mult)
    have b: "bumped h0 (\<lambda>j. tally ?f {0..<?g} (int j)) h"
      using inv True by (simp add: naive_inv_def min_def)
    have "\<exists>h'. atomicAdd h (?f ?g) 1 = Inr h' \<and> bumped h0 (\<lambda>j. tally ?f (insert ?g {0..<?g}) (int j)) h'"
      using rng[of ?g] True g0 by (intro atomicAdd_tally[OF b]) (simp_all del: of_nat_add of_nat_mult)
    then obtain h' where h': "atomicAdd h (?f ?g) 1 = Inr h'"
      "bumped h0 (\<lambda>j. tally ?f (insert ?g {0..<?g}) (int j)) h'" by blast
    have "min (?g + 1) N = ?g + 1" using True by simp
    then have "naive_inv input h0 N (?g + 1) h'"
      using h'(2) by (simp add: naive_inv_def upto_insert del: of_nat_add of_nat_mult)
    moreover have "naive_thread L input N bx tx h = Inr h'"
      using gid True ld h'(1) by (simp add: naive_thread_def del: of_nat_add of_nat_mult)
    ultimately show ?thesis by blast
  next
    case False
    then have "min (?g + 1) N = min ?g N" by simp
    then have "naive_inv input h0 N (?g + 1) h"
      using inv by (simp add: naive_inv_def del: of_nat_add of_nat_mult)
    moreover have "naive_thread L input N bx tx h = Inr h"
      using gid False by (simp add: naive_thread_def del: of_nat_add of_nat_mult)
    ultimately show ?thesis by blast
  qed
qed

lemma naive_kernel:
  assumes L: "int (blockDim L * gridDim L) \<le> INT_MAX"
    and N: "N \<le> int (length input)" "N \<le> int (blockDim L * gridDim L)"
    and rng: "\<And>k. 0 \<le> k \<Longrightarrow> k < N \<Longrightarrow> nat (uint (input ! nat k)) < length h0"
  shows "\<exists>h. computeHistogramNaive L input h0 N numBins = Inr h
           \<and> bumped h0 (\<lambda>j. tally (\<lambda>k. uint (input ! nat k)) {0..<N} (int j)) h"
proof -
  let ?bd = "blockDim L"
  have block: "\<exists>h'. for_each (naive_thread L input N bx) [0..<?bd] h = Inr h'
                  \<and> naive_inv input h0 N (int (Suc bx * ?bd)) h'"
    if bx: "bx < gridDim L" and inv: "naive_inv input h0 N (int (bx * ?bd)) h" for bx h
  proof -
    have "\<exists>h'. for_each (naive_thread L input N bx) [0..<?bd] h = Inr h'
            \<and> naive_inv input h0 N (int (bx * ?bd + ?bd)) h'"
    proof (rule for_each_upt_invariant[where I = "\<lambda>tx. naive_inv input h0 N (int (bx * ?bd + tx))"])
      show "naive_inv input h0 N (int (bx * ?bd + 0)) h" using inv by simp
    next
      fix tx s assume tx: "tx < ?bd" and s: "naive_inv input h0 N (int (bx * ?bd + tx)) s"
      have "int (bx * ?bd + Suc tx) = int (bx * ?bd + tx) + 1" by simp
      then show "\<exists>s'. naive_thread L input N bx tx s = Inr s'
                  \<and> naive_inv input h0 N (int (bx * ?bd + Suc tx)) s'"
        using naive_thread_step[OF bx tx L N(1) rng s] by (simp only:)
    qed
    then show ?thesis by (simp add: add.commute)
  qed
  have "\<exists>h. for_each (\<lambda>bx. for_each (naive_thread L input N bx) [0..<?bd]) [0..<gridDim L] h0 = Inr h
          \<and> naive_inv input h0 N (int (gridDim L * ?bd)) h"
  proof (rule for_each_upt_invariant[where I = "\<lambda>bx. naive_inv input h0 N (int (bx * ?bd))"])
    show "naive_inv input h0 N (int (0 * ?bd)) h0"
      by (simp add: naive_inv_def bumped_def)
  next
    fix bx s assume "bx < gridDim L" "naive_inv input h0 N (int (bx * ?bd)) s"
    then show "\<exists>s'. for_each (naive_thread L input N bx) [0..<?bd] s = Inr s'
                \<and> naive_inv input h0 N (int (Suc bx * ?bd)) s'"
      by (rule block)
  qed
  moreover have "min (int (gridDim L * ?bd)) N = N"
    using N(2) by (simp add: mult.commute)
  ultimately show ?thesis
    by (simp add: computeHistogramNaive_def naive_inv_def)
qed

section \<open>The shared-memory kernel counts every sample\<close>

lemma lane_as_lanes: "lane t d n = lanes t (t + 1) d n"
  by (auto simp: lane_def lanes_def)

lemma tally_bound:
  assumes "V \<subseteq> {0..<n}"
  shows "tally f V v \<le> max 0 n"
proof -
  have "finite V" using assms by (rule finite_subset) simp
  then have "tally f V v \<le> int (card V)" by (rule tally_le_card)
  also have "card V \<le> card {0..<n}" using assms by (intro card_mono) simp_all
  finally show ?thesis by (simp add: max_def)
qed

lemma bump_from_zero:
  assumes "V \<subseteq> {0..<n}" "n \<le> INT_MAX"
  shows "bump 0 (tally f V v) = tally f V v"
proof -
  have "tally f V v \<le> INT_MAX"
    using tally_bound[OF assms(1), of f v] assms(2) by (simp add: INT_MAX_def)
  then show ?thesis
    using bump_exact[of "tally f V v" 0] tally_nonneg[of f V v] by (simp add: INT_MIN_def)
qed

lemma for_each_lanes:
  fixes cells :: "'g \<Rightarrow> int list"
  assumes step: "\<And>k g. k < n \<Longrightarrow> R g \<Longrightarrow> length (cells g) = m
      \<Longrightarrow> \<exists>g'. f k g = Inr g' \<and> R g'
            \<and> bumped (cells g)
                 (\<lambda>j. if P j then tally smp (lanes (a + int (k * w)) (a + int (k * w + w)) s N) (int j)
                      else 0) (cells g')"
    and init: "R g0" "length (cells g0) = m"
  shows "\<exists>g'. for_each f [0..<n] g0 = Inr g' \<and> R g'
           \<and> bumped (cells g0)
                (\<lambda>j. if P j then tally smp (lanes a (a + int (n * w)) s N) (int j) else 0) (cells g')"
proof -
  let ?c = "\<lambda>lo hi j. if P j then tally smp (lanes lo hi s N) (int j) else 0"
  let ?I = "\<lambda>k g. R g \<and> bumped (cells g0) (?c a (a + int (k * w))) (cells g)"
  have "\<exists>g'. for_each f [0..<n] g0 = Inr g' \<and> ?I n g'"
  proof (rule for_each_upt_invariant[where I = ?I])
    show "?I 0 g0" using init by (simp add: bumped_def)
  next
    fix k g assume k: "k < n" and inv: "?I k g"
    have len: "length (cells g) = m" using inv init(2) by (simp add: bumped_def)
    from step[OF k _ len] inv obtain g' where g': "f k g = Inr g'" "R g'"
      "bumped (cells g) (?c (a + int (k * w)) (a + int (k * w + w))) (cells g')" by blast
    have split: "lanes a (a + int (Suc k * w)) s N
        = lanes a (a + int (k * w)) s N \<union> lanes (a + int (k * w)) (a + int (k * w + w)) s N"
      using lanes_append[of a "a + int (k * w)" "a + int (k * w + w)" s N]
      by (simp add: add.commute)
    have add: "?c a (a + int (Suc k * w)) j
        = ?c a (a + int (k * w)) j + ?c (a + int (k * w)) (a + int (k * w + w)) j" for j
      unfolding split by (simp add: tally_union lanes_disjoint)
    have "bumped (cells g0)
        (\<lambda>j. ?c a (a + int (k * w)) j + ?c (a + int (k * w)) (a + int (k * w + w)) j) (cells g')"
      using inv g'(3) by (intro bumped_trans[of _ _ "cells g"]) simp_all
    then have "bumped (cells g0) (?c a (a + int (Suc k * w))) (cells g')"
      by (rule bumped_cong) (simp only: add)
    with g'(1,2) show "\<exists>g'. f k g = Inr g' \<and> ?I (Suc k) g'" by blast
  qed
  then show ?thesis by simp
qed

lemma grid_stride_ok:
  assumes "int (blockDim L * gridDim L) \<le> INT_MAX"
  shows "grid_stride L = Inr (int (blockDim L * gridDim L))"
proof -
  have "0 \<le> int (blockDim L * gridDim L)" by (rule of_nat_0_le_iff)
  then show ?thesis
    using assms by (simp add: grid_stride_def int32_def INT_MIN_def del: of_nat_mult)
qed

lemma shared_thread_ok:
  assumes L: "bx < gridDim L" "tx < blockDim L" "int (blockDim L * gridDim L) \<le> INT_MAX"
    and fits: "N + int (blockDim L * gridDim L) \<le> INT_MAX + 1"
    and N: "N \<le> int (length input)"
    and rng: "\<And>k. 0 \<le> k \<Longrightarrow> k < N \<Longrightarrow> nat (uint (input ! nat k)) < length sh0"
  shows "\<exists>sh. shared_thread L input N bx tx sh0 = Inr sh
           \<and> bumped sh0 (\<lambda>j. tally (\<lambda>k. uint (input ! nat k))
                 (lane (int (bx * blockDim L + tx)) (int (blockDim L * gridDim L)) N) (int j)) sh"
proof -
  let ?t = "int (bx * blockDim L + tx)" and ?s = "int (blockDim L * gridDim L)"
  let ?f = "\<lambda>k. uint (input ! nat k)"
  let ?Q = "\<lambda>V sh. bumped sh0 (\<lambda>j. tally ?f V (int j)) sh"
  let ?body = "\<lambda>i sh. case load input i of Inl e \<Rightarrow> Inl e | Inr v \<Rightarrow> atomicAdd sh (uint v) 1"
  have t0: "0 \<le> ?t" by (rule of_nat_0_le_iff)
  have ts: "?t < ?s" using thread_id_bound[OF L(1,2)] by (simp only: of_nat_less_iff)
  have "\<exists>sh. for_stride ?t N (Inr ?s) ?body sh0 = Inr sh \<and> ?Q ({} \<union> lane ?t ?s N) sh"
  proof (rule for_stride_lane[where Q = ?Q, OF t0 ts fits])
    show "?Q {} sh0" by (simp add: bumped_def)
  next
    fix k sh assume k: "k \<in> lane ?t ?s N" and q: "?Q ({} \<union> {j \<in> lane ?t ?s N. j < k}) sh"
    have k0: "0 \<le> k" "k < N" using k by (simp_all add: lane_def)
    have ld: "load input k = Inr (input ! nat k)" using k0 N by (intro load_ok) simp_all
    have "\<exists>h'. atomicAdd sh (?f k) 1 = Inr h'
            \<and> bumped sh0 (\<lambda>j. tally ?f (insert k {j \<in> lane ?t ?s N. j < k}) (int j)) h'"
      using q rng[OF k0] by (intro atomicAdd_tally) simp_all
    then show "\<exists>s'. ?body k sh = Inr s' \<and> ?Q (insert k ({} \<union> {j \<in> lane ?t ?s N. j < k})) s'"
      using ld by simp
  qed
  then show ?thesis
    using global_thread_id_ok[OF L] grid_stride_ok[OF L(3)]
    by (simp add: shared_thread_def del: of_nat_add of_nat_mult)
qed

lemma length_shared_at_start [simp]: "length (shared_at_start L bx) = sharedMemSize L div 4"
  by (simp add: shared_at_start_def)

lemma shared_block_ok:
  assumes L: "bx < gridDim L" "0 < blockDim L" "int (blockDim L * gridDim L) \<le> INT_MAX"
    and fits: "N + int (blockDim L * gridDim L) \<le> INT_MAX + 1"
      "numBins + int (blockDim L) \<le> INT_MAX + 1"
    and N: "N \<le> int (length input)"
    and bins: "numBins \<le> int (sharedMemSize L div 4)" "numBins \<le> int (length h)"
    and rng: "\<And>k. 0 \<le> k \<Longrightarrow> k < N \<Longrightarrow> nat (uint (input ! nat k)) < sharedMemSize L div 4"
  shows "\<exists>h'. shared_block L input N numBins bx h = Inr h'
           \<and> bumped h (\<lambda>j. if int j < numBins
                 then tally (\<lambda>k. uint (input ! nat k))
                   (lanes (int (bx * blockDim L)) (int (bx * blockDim L + blockDim L))
                      (int (blockDim L * gridDim L)) N) (int j)
                 else 0) h'"
proof -
  let ?bd = "blockDim L" and ?s = "int (blockDim L * gridDim L)"
  let ?f = "\<lambda>k. uint (input ! nat k)"
  let ?a = "int (bx * ?bd)"
  let ?V = "lanes ?a (int (bx * ?bd + ?bd)) ?s N"
  have "0 < gridDim L" using L(1) by simp
  then have "0 < blockDim L * gridDim L" using L(2) by simp
  then have "0 < ?s" by (simp only: of_nat_0_less_iff)
  then have Nmax: "N \<le> INT_MAX" using fits(1) by linarith
  from zero_shared_ok[OF L(2) fits(2), of "shared_at_start L bx"] bins(1)
  obtain shz where shz: "zero_shared L numBins (shared_at_start L bx) = Inr shz"
    "length shz = sharedMemSize L div 4"
    "\<forall>j<length shz. shz ! j = (if int j < numBins then 0 else shared_at_start L bx ! j)"
    by auto
  have "\<exists>sh. for_each (shared_thread L input N bx) [0..<?bd] shz = Inr sh \<and> True
        \<and> bumped (id shz) (\<lambda>j. if True then tally ?f (lanes ?a (?a + int (?bd * 1)) ?s N) (int j) else 0)
             (id sh)"
  proof (rule for_each_lanes[where R = "\<lambda>_. True" and cells = id and m = "sharedMemSize L div 4"])
    fix tx and sh :: "int list" assume tx: "tx < ?bd" and len: "length (id sh) = sharedMemSize L div 4"
    have rng': "\<And>k. 0 \<le> k \<Longrightarrow> k < N \<Longrightarrow> nat (uint (input ! nat k)) < length sh"
      using rng len by simp
    have e1: "?a + int (tx * 1) = int (bx * ?bd + tx)" by simp
    have e2: "?a + int (tx * 1 + 1) = int (bx * ?bd + tx) + 1" by simp
    from shared_thread_ok[OF L(1) tx L(3) fits(1) N rng']
    show "\<exists>g'. shared_thread L input N bx tx sh = Inr g' \<and> True
         \<and> bumped (id sh) (\<lambda>j. if True then tally ?f (lanes (?a + int (tx * 1)) (?a + int (tx * 1 + 1)) ?s N) (int j) else 0)
              (id g')"
      unfolding e1 e2 by (simp add: lane_as_lanes del: of_nat_add of_nat_mult)
  qed (simp_all add: shz)
  moreover have "?a + int (?bd * 1) = int (bx * ?bd + ?bd)" by simp
  ultimately have "\<exists>sh. for_each (shared_thread L input N bx) [0..<?bd] shz = Inr sh
        \<and> bumped shz (\<lambda>j. tally ?f ?V (int j)) sh"
    by (simp only: id_apply simp_thms if_True)
  then obtain sh where sh: "for_each (shared_thread L input N bx) [0..<?bd] shz = Inr sh"
    "bumped shz (\<lambda>j. tally ?f ?V (int j)) sh"
    by blast
  have lensh: "length sh = sharedMemSize L div 4"
    using sh(2) shz(2) by (simp add: bumped_def)
  have cnt: "sh ! j = tally ?f ?V (int j)" if "int j < numBins" for j
  proof -
    have j: "j < sharedMemSize L div 4" using that bins(1) by simp
    then have "sh ! j = bump (shz ! j) (tally ?f ?V (int j))"
      using sh(2) shz(2) by (simp add: bumped_def)
    also have "shz ! j = 0" using shz(2,3) j that by simp
    finally show ?thesis
      using bump_from_zero[OF lanes_subset Nmax] by simp
  qed
  from flush_shared_ok[OF L(2) fits(2) bins(2), of sh] bins(1) lensh
  obtain h' where h': "flush_shared L numBins sh h = Inr h'"
    "bumped h (\<lambda>j. if int j < numBins then max 0 (sh ! j) else 0) h'" by auto
  have "bumped h (\<lambda>j. if int j < numBins then tally ?f ?V (int j) else 0) h'"
    using h'(2) by (rule bumped_cong) (simp add: cnt)
  then show ?thesis
    using shz(1) sh(1) h'(1) by (simp add: shared_block_def)
qed

lemma shared_kernel:
  assumes L: "0 < gridDim L" "0 < blockDim L" "int (blockDim L * gridDim L) \<le> INT_MAX"
    and fits: "N + int (blockDim L * gridDim L) \<le> INT_MAX + 1"
      "numBins + int (blockDim L) \<le> INT_MAX + 1"
    and N: "N \<le> int (length input)"
    and bins: "numBins \<le> int (sharedMemSize L div 4)" "numBins \<le> int (length h0)"
    and rng: "\<And>k. 0 \<le> k \<Longrightarrow> k < N \<Longrightarrow> nat (uint (input ! nat k)) < sharedMemSize L div 4"
  shows "\<exists>h. computeHistogramShared L input h0 N numBins = Inr h
           \<and> bumped h0 (\<lambda>j. if int j < numBins
                 then tally (\<lambda>k. uint (input ! nat k)) {0..<N} (int j) else 0) h"
proof -
  let ?bd = "blockDim L" and ?s = "int (blockDim L * gridDim L)"
  let ?f = "\<lambda>k. uint (input ! nat k)"
  have all: "lanes 0 (0 + int (gridDim L * ?bd)) ?s N = {0..<N}"
  proof -
    have "0 < blockDim L * gridDim L" using L(1,2) by simp
    then have "0 < ?s" by (simp only: of_nat_0_less_iff)
    then have "lanes 0 ?s ?s N = {0..<N}" by (rule lanes_all)
    then show ?thesis by (simp only: add_0 mult.commute)
  qed
  have "\<exists>h. for_each (shared_block L input N numBins) [0..<gridDim L] h0 = Inr h \<and> True
        \<and> bumped (id h0) (\<lambda>j. if int j < numBins
              then tally ?f (lanes 0 (0 + int (gridDim L * ?bd)) ?s N) (int j) else 0) (id h)"
  proof (rule for_each_lanes[where R = "\<lambda>_. True" and cells = id and m = "length h0"])
    fix bx and h :: "int list" assume bx: "bx < gridDim L" and len: "length (id h) = length h0"
    have b2: "numBins \<le> int (length h)" using bins(2) len by simp
    from shared_block_ok[OF bx L(2,3) fits N bins(1) b2 rng]
    show "\<exists>g'. shared_block L input N numBins bx h = Inr g' \<and> True
         \<and> bumped (id h) (\<lambda>j. if int j < numBins
               then tally ?f (lanes (0 + int (bx * ?bd)) (0 + int (bx * ?bd + ?bd)) ?s N) (int j)
               else 0) (id g')"
      by (simp only: add_0 id_apply simp_thms)
  qed simp_all
  then show ?thesis
    unfolding all by (simp only: computeHistogramShared_def id_apply simp_thms)
qed

section \<open>A thread of the hierarchical kernel\<close>

lemma prefetch_ok:
  assumes base: "0 \<le> base" "base < N" and N: "N \<le> int (length input)"
    and s: "0 \<le> s" and fits: "N + 12 * s \<le> INT_MAX + 1"
  shows "\<exists>values. prefetch input N base s = Inr values \<and> length values = 12
           \<and> (\<forall>i<12. values ! i = (if base + int i * s < N then input ! nat (base + int i * s)
                                    else - 1))"
proof -
  let ?g = "\<lambda>i. case int32 (int i * s) of Inl e \<Rightarrow> Inl e
                  | Inr off \<Rightarrow> (case int32 (base + off) of Inl e \<Rightarrow> Inl e
                  | Inr idx \<Rightarrow> if idx < N then load input idx else Inr (- 1))"
  have one: "?g i = Inr (if base + int i * s < N then input ! nat (base + int i * s) else - 1)"
    if i: "i < 12" for i
  proof -
    define off where "off = int i * s"
    have "off \<le> 11 * s" unfolding off_def using i s by (intro mult_right_mono) simp_all
    moreover have "0 \<le> off" unfolding off_def using s by simp
    ultimately have off: "int32 off = Inr off"
      and idx: "int32 (base + off) = Inr (base + off)"
      using base fits s by (simp_all add: int32_def INT_MIN_def)
    have "load input (base + off) = Inr (input ! nat (base + off))"
      if "base + off < N"
      using that N base \<open>0 \<le> off\<close> by (intro load_ok) simp_all
    then show ?thesis using off idx unfolding off_def by simp
  qed
  have "\<exists>ys. collect ?g [0..<elementsPerThread] = Inr ys \<and> length ys = length [0..<elementsPerThread]
           \<and> (\<forall>k<length [0..<elementsPerThread]. ?g ([0..<elementsPerThread] ! k) = Inr (ys ! k))"
    by (rule collect_total) (simp add: elementsPerThread_def one)
  then obtain ys where ys: "collect ?g [0..<elementsPerThread] = Inr ys" "length ys = 12"
    "\<forall>k<12. ?g k = Inr (ys ! k)"
    by (auto simp: elementsPerThread_def)
  have "\<forall>i<12. ys ! i = (if base + int i * s < N then input ! nat (base + int i * s) else - 1)"
    using ys(3) one by auto
  then show ?thesis using ys(1,2) by (simp add: prefetch_def)
qed

lemma classify_sentinel: "classify numBins (- 1) st = Inr st"
  by (simp add: classify_def split: prod.splits)

lemma increment_ok:
  assumes "0 \<le> i" "nat i < length mem" "INT_MIN \<le> mem ! nat i + 1" "mem ! nat i + 1 \<le> INT_MAX"
  shows "increment mem i = Inr (mem[nat i := mem ! nat i + 1])"
  using assms by (simp add: increment_def load_ok store_ok int32_def)

lemma tally_other:
  assumes "finite V" "k \<notin> V" "f k \<noteq> v"
  shows "tally f (insert k V) v = tally f V v"
  using assms by (simp add: tally_insert)

lemma classify_counts:
  assumes inv: "optimized_inv f numBins sh0 V st"
    and V: "V \<subseteq> {0..<k}" "k < N" "N \<le> INT_MAX"
    and bins: "numBins \<le> int (length sh0)"
  shows "\<exists>st'. classify numBins (f k) st = Inr st' \<and> optimized_inv f numBins sh0 (insert k V) st'"
proof -
  obtain lh sh where st: "st = (lh, sh)" by (cases st)
  have fin: "finite V" using V(1) by (rule finite_subset) simp
  have new: "k \<notin> V" using V(1) by auto
  have lh: "length lh = 32" "\<And>j. j < 32 \<Longrightarrow> lh ! j = (if int j < numBins then tally f V (int j) else 0)"
    and sh: "bumped sh0 (\<lambda>j. if 32 \<le> j \<and> int j < numBins then tally f V (int j) else 0) sh"
    using inv st by (simp_all add: optimized_inv_def)
  show ?thesis
  proof (cases "0 \<le> f k \<and> f k < numBins")
    case False
    have "tally f (insert k V) (int j) = tally f V (int j)" if "int j < numBins" for j
      using False that by (intro tally_other[OF fin new]) auto
    then have "optimized_inv f numBins sh0 (insert k V) st"
      using inv by (simp add: optimized_inv_def st cong: if_cong)
    moreover have "classify numBins (f k) st = Inr st"
      using False by (auto simp: classify_def st)
    ultimately show ?thesis by blast
  next
    case inr: True
    show ?thesis
    proof (cases "f k < 32")
      case True
      let ?v = "nat (f k)"
      have v: "?v < 32" "int ?v = f k" using True inr by simp_all
      have old: "lh ! ?v = tally f V (f k)" using lh(2)[OF v(1)] inr v(2) by simp
      have "tally f V (f k) \<le> max 0 k" by (rule tally_bound[OF V(1)])
      then have small: "lh ! ?v + 1 \<le> INT_MAX" using old V(2,3) by (simp add: max_def INT_MAX_def split: if_splits)
      have "0 \<le> lh ! ?v" using old by simp
      then have inc: "increment lh (f k) = Inr (lh[?v := lh ! ?v + 1])"
        using inr v(1) lh(1) small by (intro increment_ok) (simp_all add: INT_MIN_def)
      have l': "(lh[?v := lh ! ?v + 1]) ! j = (if int j < numBins then tally f (insert k V) (int j) else 0)"
        if j: "j < 32" for j
      proof (cases "j = ?v")
        case True
        then show ?thesis using j lh(1) old inr v(2) fin new by (simp add: tally_insert)
      next
        case False
        then have "f k \<noteq> int j" using v(2) by auto
        then show ?thesis using False j lh(1) lh(2)[OF j] fin new by (simp add: tally_insert)
      qed
      have "tally f (insert k V) (int j) = tally f V (int j)" if "32 \<le> j" for j
        using True that by (intro tally_other[OF fin new]) auto
      then have "bumped sh0 (\<lambda>j. if 32 \<le> j \<and> int j < numBins then tally f (insert k V) (int j) else 0) sh"
        using sh by (simp cong: if_cong)
      then have "optimized_inv f numBins sh0 (insert k V) (lh[?v := lh ! ?v + 1], sh)"
        using l' lh(1) by (simp add: optimized_inv_def)
      moreover have "classify numBins (f k) st = Inr (lh[?v := lh ! ?v + 1], sh)"
        using inr True inc by (simp add: classify_def st)
      ultimately show ?thesis by blast
    next
      case False
      let ?v = "nat (f k)"
      let ?c = "\<lambda>V j. if 32 \<le> j \<and> int j < numBins then tally f V (int j) else 0"
      have v: "32 \<le> ?v" "int ?v = f k" "?v < length sh0" using False inr bins by simp_all
      have cv: "0 \<le> ?c V ?v" by simp
      from bumped_atomicAdd[OF sh _ v(3) cv, of 1] inr
      have a: "atomicAdd sh (f k) 1 = Inr (sh[?v := wrap32 (sh ! ?v + 1)])"
        "bumped sh0 ((?c V)(?v := ?c V ?v + 1)) (sh[?v := wrap32 (sh ! ?v + 1)])"
        by simp_all
      have "(?c V)(?v := ?c V ?v + 1) = ?c (insert k V)"
      proof
        fix j show "((?c V)(?v := ?c V ?v + 1)) j = ?c (insert k V) j"
        proof (cases "j = ?v")
          case True
          then show ?thesis using v inr fin new by (simp add: tally_insert)
        next
          case False
          then have "f k \<noteq> int j" using v(2) by auto
          then show ?thesis using False fin new by (simp add: tally_insert)
        qed
      qed
      then have s': "bumped sh0 (?c (insert k V)) (sh[?v := wrap32 (sh ! ?v + 1)])"
        using a(2) by simp
      have "tally f (insert k V) (int j) = tally f V (int j)" if "j < 32" for j
        using False that by (intro tally_other[OF fin new]) auto
      then have "\<forall>j<32. lh ! j = (if int j < numBins then tally f (insert k V) (int j) else 0)"
        using lh(2) by simp
      then have "optimized_inv f numBins sh0 (insert k V) (lh, sh[?v := wrap32 (sh ! ?v + 1)])"
        using s' lh(1) by (simp add: optimized_inv_def)
      moreover have "classify numBins (f k) st = Inr (lh, sh[?v := wrap32 (sh ! ?v + 1)])"
        using inr False a(1) by (simp add: classify_def st)
      ultimately show ?thesis by blast
    qed
  qed
qed

lemma lane_subset_below: "{j \<in> lane t d n. j < k} \<subseteq> {0..<k}"
  by (auto simp: lane_def)

lemma process_batch_ok:
  assumes inv: "optimized_inv (\<lambda>k. input ! nat k) numBins sh0 {j \<in> lane t s N. j < base} st"
    and base: "0 \<le> base" "base < N" "base mod s = t"
    and s: "0 < s" and N: "N \<le> int (length input)" and fits: "N + 12 * s \<le> INT_MAX + 1"
    and bins: "numBins \<le> int (length sh0)"
  shows "\<exists>st'. process_batch input N numBins s base st = Inr st'
           \<and> optimized_inv (\<lambda>k. input ! nat k) numBins sh0 {j \<in> lane t s N. j < base + 12 * s} st'"
proof -
  let ?f = "\<lambda>k. input ! nat k"
  let ?I = "\<lambda>i st. optimized_inv ?f numBins sh0 {j \<in> lane t s N. j < base + int i * s} st"
  have Nmax: "N \<le> INT_MAX" using fits s by simp
  from prefetch_ok[OF base(1,2) N _ fits] s
  obtain vals where vs: "prefetch input N base s = Inr vals" "length vals = 12"
    "\<forall>i<12. vals ! i = (if base + int i * s < N then input ! nat (base + int i * s) else - 1)"
    by auto
  have "\<exists>st'. for_each (classify numBins) vals st = Inr st' \<and> ?I (length vals) st'"
  proof (rule for_each_invariant[where I = ?I])
    show "?I 0 st" using inv by simp
  next
    fix i st assume i: "i < length vals" and q: "?I i st"
    define idx where "idx = base + int i * s"
    have idx0: "0 \<le> idx" unfolding idx_def using base(1) s by simp
    have res: "idx mod s = t" unfolding idx_def using base(3) by simp
    have nxt: "base + int (Suc i) * s = idx + s" unfolding idx_def by (simp add: algebra_simps)
    have val: "vals ! i = (if idx < N then input ! nat idx else - 1)"
      using vs(2,3) i unfolding idx_def by simp
    have q': "optimized_inv ?f numBins sh0 {j \<in> lane t s N. j < idx} st"
      using q unfolding idx_def .
    show "\<exists>s'. classify numBins (vals ! i) st = Inr s' \<and> ?I (Suc i) s'"
    proof (cases "idx < N")
      case True
      have "{j \<in> lane t s N. j < idx + s} = insert idx {j \<in> lane t s N. j < idx}"
        using lane_next[OF s idx0 res, of N] True by simp
      moreover have "\<exists>st'. classify numBins (?f idx) st = Inr st'
          \<and> optimized_inv ?f numBins sh0 (insert idx {j \<in> lane t s N. j < idx}) st'"
        by (rule classify_counts[OF q' lane_subset_below True Nmax bins])
      ultimately show ?thesis using val True unfolding nxt by simp
    next
      case False
      have "{j \<in> lane t s N. j < idx + s} = {j \<in> lane t s N. j < idx}"
        using lane_next[OF s idx0 res, of N] False by simp
      then show ?thesis using val False q' unfolding nxt by (simp add: classify_sentinel)
    qed
  qed
  then show ?thesis using vs(1,2) by (simp add: process_batch_def)
qed

lemma merge_local_ok:
  assumes inv: "optimized_inv f numBins sh0 V (lh, sh)" and bins: "numBins \<le> int (length sh0)"
  shows "\<exists>sh'. merge_local lh sh = Inr sh'
           \<and> bumped sh0 (\<lambda>j. if int j < numBins then tally f V (int j) else 0) sh'"
proof -
  let ?c = "\<lambda>i j. if int j < numBins \<and> (32 \<le> j \<or> j < i) then tally f V (int j) else 0"
  let ?body = "\<lambda>i sh. case load lh (int i) of Inl e \<Rightarrow> Inl e
                      | Inr c \<Rightarrow> if c > 0 then atomicAdd sh (int i) c else Inr sh"
  have lh: "length lh = 32" "\<And>j. j < 32 \<Longrightarrow> lh ! j = (if int j < numBins then tally f V (int j) else 0)"
    and sh: "bumped sh0 (\<lambda>j. if 32 \<le> j \<and> int j < numBins then tally f V (int j) else 0) sh"
    using inv by (simp_all add: optimized_inv_def)
  have "\<exists>sh'. for_each ?body [0..<32] sh = Inr sh' \<and> bumped sh0 (?c 32) sh'"
  proof (rule for_each_upt_invariant[where I = "\<lambda>i. bumped sh0 (?c i)"])
    show "bumped sh0 (?c 0) sh" using sh by (rule bumped_cong) auto
  next
    fix i s assume i: "i < 32" and q: "bumped sh0 (?c i) s"
    have ld: "load lh (int i) = Inr (lh ! i)" using i lh(1) by (simp add: load_ok)
    show "\<exists>s'. ?body i s = Inr s' \<and> bumped sh0 (?c (Suc i)) s'"
    proof (cases "0 < lh ! i")
      case True
      then have ib: "int i < numBins" and li: "lh ! i = tally f V (int i)"
        using lh(2)[OF i] by (simp_all split: if_splits)
      have il: "nat (int i) < length sh0" using ib bins by simp
      have ci: "0 \<le> ?c i (nat (int i))" by simp
      from bumped_atomicAdd[OF q _ il ci True]
      have a: "atomicAdd s (int i) (lh ! i) = Inr (s[i := wrap32 (s ! i + lh ! i)])"
        "bumped sh0 ((?c i)(i := ?c i i + lh ! i)) (s[i := wrap32 (s ! i + lh ! i)])"
        by (simp_all only: nat_int of_nat_0_le_iff)
      have eq: "(?c i)(i := ?c i i + lh ! i) = ?c (Suc i)"
        using i ib li by (auto simp: fun_eq_iff less_Suc_eq)
      have "bumped sh0 (?c (Suc i)) (s[i := wrap32 (s ! i + lh ! i)])"
        using a(2) unfolding eq .
      then show ?thesis using a(1) ld True by simp
    next
      case False
      have "0 \<le> lh ! i" using lh(2)[OF i] by simp
      then have "lh ! i = 0" using False by linarith
      then have z: "int i < numBins \<Longrightarrow> tally f V (int i) = 0"
        using lh(2)[OF i] by (simp split: if_splits)
      have "bumped sh0 (?c (Suc i)) s"
        using q by (rule bumped_cong) (use z i in \<open>auto simp: less_Suc_eq\<close>)
      then show ?thesis using ld False by simp
    qed
  qed
  then obtain sh' where sh': "merge_local lh sh = Inr sh'" "bumped sh0 (?c 32) sh'"
    unfolding merge_local_def by blast
  have "bumped sh0 (\<lambda>j. if int j < numBins then tally f V (int j) else 0) sh'"
    using sh'(2) by (rule bumped_cong) auto
  with sh'(1) show ?thesis by blast
qed

lemma residue_of_batch:
  fixes i t s :: int
  assumes "0 \<le> t" "t < s" "(i - t) mod (s * 12) = 0"
  shows "i mod s = t"
proof -
  have "s * 12 dvd i - t" using assms(3) by auto
  then have "s dvd i - t" by (rule dvd_mult_left)
  then have "(i - t) mod s = 0" by simp
  then show ?thesis by (rule step_residue[OF assms(1,2)])
qed

lemma optimized_thread_ok:
  assumes L: "bx < gridDim L" "tx < blockDim L"
    and N: "0 \<le> N" "N \<le> int (length input)"
    and fits0: "N + 12 * int (blockDim L * gridDim L) \<le> INT_MAX"
    and bins: "numBins \<le> int (length sh0)"
  shows "\<exists>sh. optimized_thread L input N numBins bx tx sh0 = Inr sh
           \<and> bumped sh0 (\<lambda>j. if int j < numBins
                 then tally (\<lambda>k. input ! nat k)
                   (lane (int (bx * blockDim L + tx)) (int (blockDim L * gridDim L)) N) (int j)
                 else 0) sh"
proof -
  let ?t = "int (bx * blockDim L + tx)" and ?s = "int (blockDim L * gridDim L)"
  let ?f = "\<lambda>k. input ! nat k"
  let ?I = "\<lambda>i st. optimized_inv ?f numBins sh0 {j \<in> lane ?t ?s N. j < i} st"
  have fits: "N + 12 * ?s \<le> INT_MAX + 1" using fits0 by linarith
  have t0: "0 \<le> ?t" by (rule of_nat_0_le_iff)
  have ts: "?t < ?s" using thread_id_bound[OF L(1,2)] by (simp only: of_nat_less_iff)
  have s0: "0 < ?s" using t0 ts by linarith
  have smax: "?s \<le> INT_MAX" using fits N(1) s0 by linarith
  have "?s * 12 \<le> INT_MAX" using fits0 N(1) s0 by linarith
  moreover have "INT_MIN \<le> ?s * 12" unfolding INT_MIN_def using s0 by linarith
  ultimately have "int32 (?s * 12) = Inr (?s * 12)" by (rule int32_fits[rotated])
  then have step: "int32 (?s * int elementsPerThread) = Inr (?s * 12)"
    by (simp add: elementsPerThread_def del: of_nat_mult)
  have fits': "N + ?s * 12 \<le> INT_MAX + 1" using fits by simp
  have d0: "0 < ?s * 12" using s0 by linarith
  have "\<exists>st j. for_stride ?t N (Inr (?s * 12)) (process_batch input N numBins ?s) (replicate 32 0, sh0) = Inr st
          \<and> ?I j st \<and> N \<le> j \<and> ?t \<le> j"
  proof (rule for_stride_invariant[where I = ?I, OF d0 fits'])
    show "INT_MIN \<le> ?t" using t0 by (simp add: INT_MIN_def del: of_nat_add of_nat_mult)
    have "{j \<in> lane ?t ?s N. j < ?t} = {}" by (rule lane_start[OF t0 ts])
    then have "?I ?t = optimized_inv ?f numBins sh0 {}" by (simp only:)
    then show "?I ?t (replicate 32 0, sh0)"
      by (simp add: optimized_inv_def bumped_def del: of_nat_add of_nat_mult)
  next
    fix i st assume i: "?t \<le> i" "i < N" "(i - ?t) mod (?s * 12) = 0" and q: "?I i st"
    have res: "i mod ?s = ?t" by (rule residue_of_batch[OF t0 ts i(3)])
    have i0: "0 \<le> i" using i(1) t0 by linarith
    from process_batch_ok[OF q i0 i(2) res s0 N(2) fits bins]
    show "\<exists>s'. process_batch input N numBins ?s i st = Inr s' \<and> ?I (i + ?s * 12) s'"
      by (simp add: mult.commute del: of_nat_add of_nat_mult)
  qed
  then obtain st where st: "for_stride ?t N (Inr (?s * 12)) (process_batch input N numBins ?s) (replicate 32 0, sh0) = Inr st"
    "optimized_inv ?f numBins sh0 (lane ?t ?s N) st"
    by (auto simp: lane_done simp del: of_nat_add of_nat_mult)
  obtain lh sh where lhsh: "st = (lh, sh)" by (cases st)
  from merge_local_ok[OF st(2)[unfolded lhsh] bins]
  obtain sh' where sh': "merge_local lh sh = Inr sh'"
    "bumped sh0 (\<lambda>j. if int j < numBins then tally ?f (lane ?t ?s N) (int j) else 0) sh'" by blast
  have "optimized_thread L input N numBins bx tx sh0 = Inr sh'"
    using global_thread_id_ok[OF L smax] grid_stride_ok[OF smax] step st(1) sh'(1) lhsh
    by (simp add: optimized_thread_def del: of_nat_add of_nat_mult)
  with sh'(2) show ?thesis by blast
qed

section \<open>The hierarchical kernel counts every sample in range\<close>

lemma tally_mono:
  assumes "V \<subseteq> W" "finite W"
  shows "tally f V v \<le> tally f W v"
proof -
  have "card {k \<in> V. f k = v} \<le> card {k \<in> W. f k = v}"
    using assms by (intro card_mono) auto
  then show ?thesis by (simp add: tally_def)
qed

lemma accumulate_block_ok:
  assumes L: "bx < gridDim L" "0 < blockDim L"
    and N: "0 \<le> N" "N \<le> int (length input)"
    and fits: "N + 12 * int (blockDim L * gridDim L) \<le> INT_MAX"
      "numBins + int (blockDim L) \<le> INT_MAX + 1"
    and bins: "numBins \<le> int (sharedMemSize L div 4)"
  shows "\<exists>sh. accumulate_block L input N numBins bx = Inr sh
           \<and> length sh = sharedMemSize L div 4
           \<and> (\<forall>j. int j < numBins \<longrightarrow>
                 sh ! j = tally (\<lambda>k. input ! nat k)
                   (lanes (int (bx * blockDim L)) (int (bx * blockDim L + blockDim L))
                      (int (blockDim L * gridDim L)) N) (int j))"
proof -
  let ?bd = "blockDim L" and ?s = "int (blockDim L * gridDim L)"
  let ?f = "\<lambda>k. input ! nat k"
  let ?a = "int (bx * ?bd)"
  let ?V = "lanes ?a (int (bx * ?bd + ?bd)) ?s N"
  have Nmax: "N \<le> INT_MAX" using fits(1) by linarith
  from zero_shared_ok[OF L(2) fits(2), of "shared_at_start L bx"] bins
  obtain shz where shz: "zero_shared L numBins (shared_at_start L bx) = Inr shz"
    "length shz = sharedMemSize L div 4"
    "\<forall>j<length shz. shz ! j = (if int j < numBins then 0 else shared_at_start L bx ! j)"
    by auto
  have "\<exists>sh. for_each (optimized_thread L input N numBins bx) [0..<?bd] shz = Inr sh \<and> True
        \<and> bumped (id shz) (\<lambda>j. if int j < numBins
              then tally ?f (lanes ?a (?a + int (?bd * 1)) ?s N) (int j) else 0) (id sh)"
  proof (rule for_each_lanes[where R = "\<lambda>_. True" and cells = id and m = "sharedMemSize L div 4"])
    fix tx and sh :: "int list" assume tx: "tx < ?bd" and len: "length (id sh) = sharedMemSize L div 4"
    have b': "numBins \<le> int (length sh)" using bins len by simp
    have e1: "?a + int (tx * 1) = int (bx * ?bd + tx)" by simp
    have e2: "?a + int (tx * 1 + 1) = int (bx * ?bd + tx) + 1" by simp
    from optimized_thread_ok[OF L(1) tx N fits(1) b']
    show "\<exists>g'. optimized_thread L input N numBins bx tx sh = Inr g' \<and> True
         \<and> bumped (id sh) (\<lambda>j. if int j < numBins
               then tally ?f (lanes (?a + int (tx * 1)) (?a + int (tx * 1 + 1)) ?s N) (int j) else 0)
              (id g')"
      unfolding e1 e2 by (simp only: lane_as_lanes id_apply simp_thms)
  qed (simp_all add: shz)
  moreover have "?a + int (?bd * 1) = int (bx * ?bd + ?bd)" by simp
  ultimately have "\<exists>sh. for_each (optimized_thread L input N numBins bx) [0..<?bd] shz = Inr sh
        \<and> bumped shz (\<lambda>j. if int j < numBins then tally ?f ?V (int j) else 0) sh"
    by (simp only: id_apply simp_thms)
  then obtain sh where sh: "for_each (optimized_thread L input N numBins bx) [0..<?bd] shz = Inr sh"
    "bumped shz (\<lambda>j. if int j < numBins then tally ?f ?V (int j) else 0) sh"
    by blast
  have lensh: "length sh = sharedMemSize L div 4"
    using sh(2) shz(2) by (simp add: bumped_def)
  have cnt: "sh ! j = tally ?f ?V (int j)" if "int j < numBins" for j
  proof -
    have j: "j < sharedMemSize L div 4" using that bins by simp
    then have "sh ! j = bump (shz ! j) (tally ?f ?V (int j))"
      using sh(2) shz(2) that by (simp add: bumped_def)
    also have "shz ! j = 0" using shz(2,3) j that by simp
    finally show ?thesis
      using bump_from_zero[OF lanes_subset Nmax] by simp
  qed
  show ?thesis
    using shz(1) sh(1) lensh cnt by (simp add: accumulate_block_def)
qed

lemma optimized_block_ok:
  assumes L: "bx < gridDim L" "0 < blockDim L"
    and N: "0 \<le> N" "N \<le> int (length input)"
    and fits: "N + 12 * int (blockDim L * gridDim L) \<le> INT_MAX"
      "numBins + int (blockDim L) \<le> INT_MAX + 1"
    and bins: "numBins \<le> int (sharedMemSize L div 4)" "numBins \<le> int (length h)"
  shows "\<exists>h' w'. optimized_block L input N numBins bx (h, w) = Inr (h', w')
           \<and> bumped h (\<lambda>j. if int j < numBins
                 then tally (\<lambda>k. input ! nat k)
                   (lanes (int (bx * blockDim L)) (int (bx * blockDim L + blockDim L))
                      (int (blockDim L * gridDim L)) N) (int j)
                 else 0) h'
           \<and> set w' \<subseteq> set w \<union> {k. 0 \<le> k \<and> k < numBins
                 \<and> 0 < tally (\<lambda>k. input ! nat k) {0..<N} k}"
proof -
  let ?f = "\<lambda>k. input ! nat k"
  let ?V = "lanes (int (bx * blockDim L)) (int (bx * blockDim L + blockDim L))
              (int (blockDim L * gridDim L)) N"
  from accumulate_block_ok[OF L N fits bins(1)]
  obtain sh where sh: "accumulate_block L input N numBins bx = Inr sh"
    "length sh = sharedMemSize L div 4"
    "\<And>j. int j < numBins \<Longrightarrow> sh ! j = tally ?f ?V (int j)" by blast
  have b1: "numBins \<le> int (length sh)" using bins(1) sh(2) by simp
  from flush_global_ok[OF L(2) fits(2) bins(2) b1, of w]
  obtain h' w' where f: "flush_global L numBins sh (h, w) = Inr (h', w')"
    "bumped h (\<lambda>j. if int j < numBins then max 0 (sh ! j) else 0) h'"
    "set w' = set w \<union> {k. 0 \<le> k \<and> k < numBins \<and> 0 < sh ! nat k}" by blast
  have "bumped h (\<lambda>j. if int j < numBins then tally ?f ?V (int j) else 0) h'"
    using f(2) by (rule bumped_cong) (simp add: sh(3))
  moreover have "0 < tally ?f {0..<N} k" if k: "0 \<le> k" "k < numBins" "0 < sh ! nat k" for k
  proof -
    have "sh ! nat k = tally ?f ?V k" using sh(3)[of "nat k"] k by simp
    moreover have "tally ?f ?V k \<le> tally ?f {0..<N} k"
      by (rule tally_mono[OF lanes_subset]) simp
    ultimately show ?thesis using k(3) by linarith
  qed
  then have "set w' \<subseteq> set w \<union> {k. 0 \<le> k \<and> k < numBins \<and> 0 < tally ?f {0..<N} k}"
    using f(3) by auto
  ultimately show ?thesis
    using sh(1) f(1) by (simp add: optimized_block_def)
qed

lemma optimized_kernel:
  assumes L: "0 < gridDim L" "0 < blockDim L"
    and N: "0 \<le> N" "N \<le> int (length input)"
    and fits: "N + 12 * int (blockDim L * gridDim L) \<le> INT_MAX"
      "numBins + int (blockDim L) \<le> INT_MAX + 1"
    and bins: "numBins \<le> int (sharedMemSize L div 4)" "numBins \<le> int (length h0)"
  shows "\<exists>h w. computeHistogramOptimized L input h0 N numBins = Inr (h, w)
           \<and> bumped h0 (\<lambda>j. if int j < numBins
                 then tally (\<lambda>k. input ! nat k) {0..<N} (int j) else 0) h
           \<and> set w \<subseteq> {k. 0 \<le> k \<and> k < numBins \<and> 0 < tally (\<lambda>k. input ! nat k) {0..<N} k}"
proof -
  let ?bd = "blockDim L" and ?s = "int (blockDim L * gridDim L)"
  let ?f = "\<lambda>k. input ! nat k"
  let ?R = "\<lambda>g. set (snd g) \<subseteq> {k. 0 \<le> k \<and> k < numBins \<and> 0 < tally ?f {0..<N} k}"
  have all: "lanes 0 (0 + int (gridDim L * ?bd)) ?s N = {0..<N}"
  proof -
    have "0 < blockDim L * gridDim L" using L(1,2) by simp
    then have "0 < ?s" by (simp only: of_nat_0_less_iff)
    then have "lanes 0 ?s ?s N = {0..<N}" by (rule lanes_all)
    then show ?thesis by (simp only: add_0 mult.commute)
  qed
  have "\<exists>g. for_each (optimized_block L input N numBins) [0..<gridDim L] (h0, []) = Inr g \<and> ?R g
        \<and> bumped (fst (h0, []::int list)) (\<lambda>j. if int j < numBins
              then tally ?f (lanes 0 (0 + int (gridDim L * ?bd)) ?s N) (int j) else 0) (fst g)"
  proof (rule for_each_lanes[where R = ?R and cells = fst and m = "length h0"])
    fix bx and g :: global assume bx: "bx < gridDim L" and r: "?R g" and len: "length (fst g) = length h0"
    obtain h w where g: "g = (h, w)" by (cases g)
    have b2: "numBins \<le> int (length h)" using bins(2) len g by simp
    from optimized_block_ok[OF bx L(2) N fits bins(1) b2, of w]
    obtain h' w' where b: "optimized_block L input N numBins bx (h, w) = Inr (h', w')"
      "bumped h (\<lambda>j. if int j < numBins
          then tally ?f (lanes (int (bx * ?bd)) (int (bx * ?bd + ?bd)) ?s N) (int j) else 0) h'"
      "set w' \<subseteq> set w \<union> {k. 0 \<le> k \<and> k < numBins \<and> 0 < tally ?f {0..<N} k}" by blast
    have r': "?R (h', w')" using b(3) r g by auto
    have "optimized_block L input N numBins bx g = Inr (h', w') \<and> ?R (h', w')
         \<and> bumped (fst g) (\<lambda>j. if int j < numBins
               then tally ?f (lanes (0 + int (bx * ?bd)) (0 + int (bx * ?bd + ?bd)) ?s N) (int j)
               else 0) (fst (h', w'))"
      using b(1,2) r' unfolding g by (simp only: add_0 fst_conv simp_thms)
    then show "\<exists>g'. optimized_block L input N numBins bx g = Inr g' \<and> ?R g'
         \<and> bumped (fst g) (\<lambda>j. if int j < numBins
               then tally ?f (lanes (0 + int (bx * ?bd)) (0 + int (bx * ?bd + ?bd)) ?s N) (int j)
               else 0) (fst g')"
      by (rule exI)
  qed simp_all
  then obtain g where g: "for_each (optimized_block L input N numBins) [0..<gridDim L] (h0, []) = Inr g"
    "?R g" "bumped (fst (h0, []::int list)) (\<lambda>j. if int j < numBins
              then tally ?f (lanes 0 (0 + int (gridDim L * ?bd)) ?s N) (int j) else 0) (fst g)"
    by blast
  obtain h w where hw: "g = (h, w)" by (cases g)
  have "bumped h0 (\<lambda>j. if int j < numBins then tally ?f {0..<N} (int j) else 0) h"
    using g(3) unfolding all hw by (simp only: fst_conv)
  moreover have "set w \<subseteq> {k. 0 \<le> k \<and> k < numBins \<and> 0 < tally ?f {0..<N} k}"
    using g(2) unfolding hw by (simp only: snd_conv)
  moreover have "computeHistogramOptimized L input h0 N numBins = Inr (h, w)"
    using g(1) unfolding hw by (simp only: computeHistogramOptimized_def)
  ultimately show ?thesis by blast
qed

lemma count_list_filter: "count_list ys v = length (filter (\<lambda>x. x = v) ys)"
  by (induction ys) simp_all

lemma tally_count_list:
  assumes "0 \<le> N" "N \<le> int (length xs)"
  shows "tally (\<lambda>k. xs ! nat k) {0..<N} v = int (count_list (take (nat N) xs) v)"
proof -
  let ?ys = "take (nat N) xs"
  have len: "length ?ys = nat N" using assms by simp
  have "{k \<in> {0..<N}. xs ! nat k = v} = int ` {i. i < length ?ys \<and> ?ys ! i = v}"
  proof (intro set_eqI iffI)
    fix k assume "k \<in> {k \<in> {0..<N}. xs ! nat k = v}"
    then have "nat k < length ?ys" "?ys ! nat k = v" "k = int (nat k)"
      using len by simp_all
    then show "k \<in> int ` {i. i < length ?ys \<and> ?ys ! i = v}" by blast
  next
    fix k assume "k \<in> int ` {i. i < length ?ys \<and> ?ys ! i = v}"
    then obtain i where "k = int i" "i < length ?ys" "?ys ! i = v" by blast
    then show "k \<in> {k \<in> {0..<N}. xs ! nat k = v}" using len assms(1) by auto
  qed
  then have "card {k \<in> {0..<N}. xs ! nat k = v} = card {i. i < length ?ys \<and> ?ys ! i = v}"
    by (simp add: card_image)
  also have "\<dots> = length (filter (\<lambda>x. x = v) ?ys)"
    by (simp add: length_filter_conv_card)
  also have "\<dots> = count_list ?ys v"
    by (simp only: count_list_filter)
  finally show ?thesis by (simp add: tally_def)
qed

section \<open>The sequential references count every sample\<close>

lemma lane_unit: "lane 0 1 n = {0..<n}"
  by (auto simp: lane_def)

lemma int32_one: "int32 1 = Inr 1"
  by (simp add: int32_def INT_MIN_def INT_MAX_def)

lemma zero_loop:
  assumes bins: "numBins \<le> int (length h0)" "numBins \<le> INT_MAX"
  shows "\<exists>h. for_stride 0 numBins (Inr 1) (\<lambda>i h. store h i 0) h0 = Inr h \<and> length h = length h0
           \<and> (\<forall>j<length h0. h ! j = (if int j < numBins then 0 else h0 ! j))"
proof -
  let ?Z = "\<lambda>V h. length h = length h0 \<and> (\<forall>j<length h0. h ! j = (if int j \<in> V then 0 else h0 ! j))"
  have "\<exists>h. for_stride 0 numBins (Inr 1) (\<lambda>i h. store h i 0) h0 = Inr h \<and> ?Z ({} \<union> lane 0 1 numBins) h"
  proof (rule for_stride_lane[where Q = ?Z])
    show "numBins + 1 \<le> INT_MAX + 1" using bins(2) by simp
    show "?Z {} h0" by simp
  next
    fix k h assume k: "k \<in> lane 0 1 numBins" and q: "?Z ({} \<union> {j \<in> lane 0 1 numBins. j < k}) h"
    have k0: "0 \<le> k" "k < numBins" using k by (simp_all add: lane_def)
    have "store h k 0 = Inr (h[nat k := 0])"
      using k0 bins(1) q by (intro store_ok) simp_all
    moreover have "?Z (insert k ({} \<union> {j \<in> lane 0 1 numBins. j < k})) (h[nat k := 0])"
    proof -
      have "(h[nat k := 0]) ! j = (if int j \<in> insert k ({} \<union> {j \<in> lane 0 1 numBins. j < k}) then 0 else h0 ! j)"
        if "j < length h0" for j
      proof (cases "j = nat k")
        case True
        then show ?thesis using that q k0 by simp
      next
        case False
        then have "int j \<noteq> k" using k0 by auto
        then show ?thesis using False that q by simp
      qed
      then show ?thesis using q by simp
    qed
    ultimately show "\<exists>s'. store h k 0 = Inr s' \<and> ?Z (insert k ({} \<union> {j \<in> lane 0 1 numBins. j < k})) s'"
      by blast
  qed simp_all
  then show ?thesis by (auto simp: lane_unit)
qed

lemma count_loop:
  fixes key :: "'a \<Rightarrow> int"
  assumes N: "N \<le> int (length input)" "N \<le> INT_MAX"
    and bins: "numBins \<le> int (length hz)"
    and zero: "\<And>j. int j < numBins \<Longrightarrow> hz ! j = 0"
    and rng: "\<And>k. 0 \<le> k \<Longrightarrow> k < N \<Longrightarrow> 0 \<le> key (input ! nat k) \<and> key (input ! nat k) < numBins"
  shows "\<exists>h. for_stride 0 N (Inr 1)
             (\<lambda>i h. case load input i of Inl e \<Rightarrow> Inl e | Inr v \<Rightarrow> increment h (key v)) hz = Inr h
           \<and> length h = length hz
           \<and> (\<forall>j<length hz. h ! j = (if int j < numBins
                  then tally (\<lambda>k. key (input ! nat k)) {0..<N} (int j) else hz ! j))"
proof -
  let ?f = "\<lambda>k. key (input ! nat k)"
  let ?C = "\<lambda>V h. length h = length hz
      \<and> (\<forall>j<length hz. h ! j = (if int j < numBins then tally ?f V (int j) else hz ! j))"
  let ?body = "\<lambda>i h. case load input i of Inl e \<Rightarrow> Inl e | Inr v \<Rightarrow> increment h (key v)"
  have "\<exists>h. for_stride 0 N (Inr 1) ?body hz = Inr h \<and> ?C ({} \<union> lane 0 1 N) h"
  proof (rule for_stride_lane[where Q = ?C])
    show "N + 1 \<le> INT_MAX + 1" using N(2) by simp
    show "?C {} hz" using zero by simp
  next
    fix k h assume k: "k \<in> lane 0 1 N" and q: "?C ({} \<union> {j \<in> lane 0 1 N. j < k}) h"
    let ?V = "{j \<in> lane 0 1 N. j < k}"
    have k0: "0 \<le> k" "k < N" using k by (simp_all add: lane_def)
    have fin: "finite ?V" by simp
    have new: "k \<notin> ?V" by simp
    have sub: "?V \<subseteq> {0..<k}" by (rule lane_subset_below)
    have ld: "load input k = Inr (input ! nat k)" using k0 N(1) by (intro load_ok) simp_all
    define v where "v = nat (?f k)"
    have fk0: "0 \<le> ?f k" and fk1: "?f k < numBins" using rng[OF k0] by simp_all
    have iv: "int v = ?f k" unfolding v_def using fk0 by simp
    have "?f k < int (length hz)" using fk1 bins by linarith
    then have vlen: "v < length hz" unfolding v_def using nat_less_iff[OF fk0] by blast
    have old: "h ! v = tally ?f ?V (?f k)" using q vlen iv fk1 by simp
    have "tally ?f ?V (?f k) \<le> max 0 k" by (rule tally_bound[OF sub])
    then have small: "h ! v + 1 \<le> INT_MAX"
      using old k0 N(2) by (simp add: max_def INT_MAX_def split: if_splits)
    have "0 \<le> h ! v" using old by simp
    then have "increment h (?f k) = Inr (h[nat (?f k) := h ! nat (?f k) + 1])"
      using vlen q small fk0 unfolding v_def by (intro increment_ok) (simp_all add: INT_MIN_def)
    then have inc: "increment h (?f k) = Inr (h[v := h ! v + 1])" unfolding v_def .
    have "(h[v := h ! v + 1]) ! j = (if int j < numBins then tally ?f (insert k ?V) (int j) else hz ! j)"
      if j: "j < length hz" for j
    proof (cases "j = v")
      case True
      then show ?thesis using j q old iv fk1 fin new by (simp add: tally_insert)
    next
      case False
      then have "?f k \<noteq> int j" using iv by auto
      then show ?thesis using False j q fin new by (simp add: tally_insert)
    qed
    then have "?C (insert k ({} \<union> ?V)) (h[v := h ! v + 1])" using q by simp
    then show "\<exists>s'. ?body k h = Inr s' \<and> ?C (insert k ({} \<union> ?V)) s'"
      using ld inc by simp
  qed simp_all
  then show ?thesis by (auto simp: lane_unit)
qed

lemma cpu_reference:
  assumes N: "N \<le> int (length input)" "N \<le> INT_MAX"
    and bins: "numBins \<le> int (length h0)" "numBins \<le> INT_MAX"
    and rng: "\<And>k. 0 \<le> k \<Longrightarrow> k < N \<Longrightarrow> uint (input ! nat k) < numBins"
  shows "\<exists>h. computeHistogramCPU input h0 N numBins = Inr h \<and> length h = length h0
           \<and> (\<forall>j<length h0. h ! j = (if int j < numBins
                  then tally (\<lambda>k. uint (input ! nat k)) {0..<N} (int j) else h0 ! j))"
proof -
  from zero_loop[OF bins]
  obtain hz where hz: "for_stride 0 numBins (Inr 1) (\<lambda>i h. store h i 0) h0 = Inr hz"
    "length hz = length h0" "\<And>j. j < length h0 \<Longrightarrow> hz ! j = (if int j < numBins then 0 else h0 ! j)"
    by blast
  have b: "numBins \<le> int (length hz)" using bins(1) hz(2) by simp
  have z: "hz ! j = 0" if "int j < numBins" for j
    using hz(3)[of j] that bins(1) by simp
  have r: "0 \<le> uint (input ! nat k) \<and> uint (input ! nat k) < numBins" if "0 \<le> k" "k < N" for k
    using rng[OF that] by simp
  from count_loop[of N input numBins hz uint, OF N b z r]
  obtain h where h: "for_stride 0 N (Inr 1)
      (\<lambda>i h. case load input i of Inl e \<Rightarrow> Inl e | Inr v \<Rightarrow> increment h (uint v)) hz = Inr h"
    "length h = length hz"
    "\<forall>j<length hz. h ! j = (if int j < numBins
        then tally (\<lambda>k. uint (input ! nat k)) {0..<N} (int j) else hz ! j)"
    by blast
  have "\<forall>j<length h0. h ! j = (if int j < numBins
        then tally (\<lambda>k. uint (input ! nat k)) {0..<N} (int j) else h0 ! j)"
    using h(3) hz(2,3) by simp
  then show ?thesis
    using hz(1,2) h(1,2) by (simp add: computeHistogramCPU_def int32_one)
qed

lemma reference_histogram_ok:
  assumes N: "N \<le> int (length input_data)" "N \<le> INT_MAX" and B: "0 \<le> B"
    and rng: "\<And>k. 0 \<le> k \<Longrightarrow> k < N \<Longrightarrow> 0 \<le> input_data ! nat k \<and> input_data ! nat k < B"
  shows "\<exists>h. reference_histogram input_data N B = Inr h \<and> length h = nat B
           \<and> (\<forall>j<nat B. h ! j = tally (\<lambda>k. input_data ! nat k) {0..<N} (int j))"
proof -
  have b: "B \<le> int (length (replicate (nat B) (0::int)))" using B by simp
  have z: "replicate (nat B) (0::int) ! j = 0" if "int j < B" for j
    using that by simp
  from count_loop[of N input_data B "replicate (nat B) 0" "\<lambda>v. v", OF N b z rng]
  obtain h where h: "for_stride 0 N (Inr 1)
      (\<lambda>i h. case load input_data i of Inl e \<Rightarrow> Inl e | Inr v \<Rightarrow> increment h v)
      (replicate (nat B) 0) = Inr h"
    "length h = nat B"
    "\<forall>j<nat B. h ! j = (if int j < B then tally (\<lambda>k. input_data ! nat k) {0..<N} (int j)
        else replicate (nat B) 0 ! j)"
    by auto
  have "\<forall>j<nat B. h ! j = tally (\<lambda>k. input_data ! nat k) {0..<N} (int j)"
    using h(3) by auto
  then show ?thesis
    using h(1,2) by (simp add: reference_histogram_def int32_one)
qed

section \<open>The kernels compute the histogram of the specification\<close>

lemma tally_cong: "(\<And>k. k \<in> V \<Longrightarrow> f k = g k) \<Longrightarrow> tally f V v = tally g V v"
proof -
  assume "\<And>k. k \<in> V \<Longrightarrow> f k = g k"
  then have "{k \<in> V. f k = v} = {k \<in> V. g k = v}" by auto
  then show ?thesis by (simp add: tally_def)
qed

lemma tally_samples:
  assumes "N = int (length xs)"
  shows "tally (\<lambda>k. xs ! nat k) {0..<N} v = int (count_list xs v)"
  using tally_count_list[of N xs v] assms by simp

lemma tally_bytes:
  fixes input :: "8 word list"
  assumes "N = int (length input)"
  shows "tally (\<lambda>k. uint (input ! nat k)) {0..<N} v = int (count_list (map uint input) v)"
proof -
  have "uint (input ! nat k) = map uint input ! nat k" if "k \<in> {0..<N}" for k
  proof -
    have "nat k < length input" using that assms by auto
    then show ?thesis by simp
  qed
  then have "tally (\<lambda>k. uint (input ! nat k)) {0..<N} v = tally (\<lambda>k. map uint input ! nat k) {0..<N} v"
    by (rule tally_cong)
  then show ?thesis using tally_samples[of N "map uint input" v] assms by simp
qed

lemma count_list_le_length: "count_list xs v \<le> length xs"
  by (induction xs) auto

lemma bump_zero_count:
  assumes "int (length xs) \<le> INT_MAX"
  shows "bump 0 (int (count_list xs v)) = int (count_list xs v)"
proof -
  have "int (count_list xs v) \<le> INT_MAX"
    using count_list_le_length[of xs v] assms by linarith
  then show ?thesis
    using bump_exact[of "int (count_list xs v)" 0] by (simp add: INT_MIN_def)
qed

lemma spec_histogramI:
  assumes "length h = nat B" "\<And>j. j < nat B \<Longrightarrow> h ! j = int (count_list xs (int j))"
  shows "h = spec_histogram xs B"
  using assms by (intro nth_equalityI) (simp_all add: spec_histogram_def)

lemma bumped_zero_histogram:
  assumes b: "bumped (replicate (nat B) 0) (\<lambda>j. if int j < B then int (count_list xs (int j)) else 0) h"
    and len: "int (length xs) \<le> INT_MAX"
  shows "h = spec_histogram xs B"
proof (rule spec_histogramI)
  show "length h = nat B" using b by (simp add: bumped_def)
next
  fix j assume j: "j < nat B"
  then have "h ! j = bump 0 (int (count_list xs (int j)))"
    using b by (simp add: bumped_def)
  then show "h ! j = int (count_list xs (int j))"
    using bump_zero_count[OF len] by simp
qed

lemma naive_histogram:
  fixes input :: "8 word list"
  assumes N: "N = int (length input)" and rng: "\<forall>x\<in>set input. uint x < B"
    and L: "launch_covers L N"
  shows "computeHistogramNaive L input (replicate (nat B) 0) N B = Inr (spec_histogram (map uint input) B)"
proof -
  have Nmax: "int (length (map uint input)) \<le> INT_MAX" using L N by (simp add: launch_covers_def)
  have r: "nat (uint (input ! nat k)) < length (replicate (nat B) (0::int))" if "0 \<le> k" "k < N" for k
  proof -
    have "nat k < length input" using that N by auto
    then have "input ! nat k \<in> set input" by simp
    then have "uint (input ! nat k) < B" using rng by blast
    then show ?thesis using nat_less_eq_zless[of "uint (input ! nat k)" B] by simp
  qed
  from naive_kernel[of L N input "replicate (nat B) 0" B, OF _ _ _ r] L N
  obtain h where h: "computeHistogramNaive L input (replicate (nat B) 0) N B = Inr h"
    "bumped (replicate (nat B) 0) (\<lambda>j. tally (\<lambda>k. uint (input ! nat k)) {0..<N} (int j)) h"
    by (auto simp: launch_covers_def)
  have "bumped (replicate (nat B) 0)
      (\<lambda>j. if int j < B then int (count_list (map uint input) (int j)) else 0) h"
    using h(2) by (rule bumped_cong) (simp add: tally_bytes[OF N])
  then have "h = spec_histogram (map uint input) B" by (rule bumped_zero_histogram[OF _ Nmax])
  with h(1) show ?thesis by simp
qed


lemma launch_fits_shared:
  assumes "launch_fits L N numBins" "0 \<le> N"
  shows "0 < gridDim L" "0 < blockDim L" "int (blockDim L * gridDim L) \<le> INT_MAX"
    "N + int (blockDim L * gridDim L) \<le> INT_MAX + 1"
    "numBins + int (blockDim L) \<le> INT_MAX + 1" "numBins \<le> int (sharedMemSize L div 4)"
    "N \<le> INT_MAX"
proof -
  have s: "0 \<le> int (blockDim L * gridDim L)" by (rule of_nat_0_le_iff)
  have f: "N + 12 * int (blockDim L * gridDim L) \<le> INT_MAX"
    using assms(1) by (simp add: launch_fits_def)
  show "0 < gridDim L" "0 < blockDim L" "numBins + int (blockDim L) \<le> INT_MAX + 1"
    "numBins \<le> int (sharedMemSize L div 4)"
    using assms(1) by (simp_all add: launch_fits_def)
  show "int (blockDim L * gridDim L) \<le> INT_MAX" using s f assms(2) by linarith
  show "N + int (blockDim L * gridDim L) \<le> INT_MAX + 1" using s f by linarith
  show "N \<le> INT_MAX" using s f by linarith
qed

lemma shared_histogram:
  fixes input :: "8 word list"
  assumes N: "N = int (length input)"
    and rng: "\<forall>x\<in>set input. uint x < int (sharedMemSize L div 4)"
    and L: "launch_fits L N B"
  shows "computeHistogramShared L input (replicate (nat B) 0) N B = Inr (spec_histogram (map uint input) B)"
proof -
  have N0: "0 \<le> N" using N by simp
  note F = launch_fits_shared[OF L N0]
  have Nmax: "int (length (map uint input)) \<le> INT_MAX" using F(7) N by simp
  have r: "nat (uint (input ! nat k)) < sharedMemSize L div 4" if "0 \<le> k" "k < N" for k
  proof -
    have "nat k < length input" using that N by auto
    then have "input ! nat k \<in> set input" by simp
    then have "uint (input ! nat k) < int (sharedMemSize L div 4)" using rng by blast
    then show ?thesis using nat_less_iff[of "uint (input ! nat k)" "sharedMemSize L div 4"] by simp
  qed
  have b: "B \<le> int (length (replicate (nat B) (0::int)))" by simp
  from shared_kernel[OF F(1,2,3,4,5) _ F(6) b r] N
  obtain h where h: "computeHistogramShared L input (replicate (nat B) 0) N B = Inr h"
    "bumped (replicate (nat B) 0)
       (\<lambda>j. if int j < B then tally (\<lambda>k. uint (input ! nat k)) {0..<N} (int j) else 0) h"
    by auto
  have "bumped (replicate (nat B) 0)
      (\<lambda>j. if int j < B then int (count_list (map uint input) (int j)) else 0) h"
    using h(2) by (rule bumped_cong) (simp add: tally_bytes[OF N])
  then have "h = spec_histogram (map uint input) B" by (rule bumped_zero_histogram[OF _ Nmax])
  with h(1) show ?thesis by simp
qed

lemma cpu_histogram:
  fixes input :: "8 word list"
  assumes N: "N = int (length input)" "N \<le> INT_MAX" and rng: "\<forall>x\<in>set input. uint x < B"
    and B: "B \<le> INT_MAX" and len: "length h0 = nat B"
  shows "computeHistogramCPU input h0 N B = Inr (spec_histogram (map uint input) B)"
proof -
  have r: "uint (input ! nat k) < B" if "0 \<le> k" "k < N" for k
  proof -
    have "nat k < length input" using that N by auto
    then have "input ! nat k \<in> set input" by simp
    then show ?thesis using rng by blast
  qed
  have b: "B \<le> int (length h0)" using len by simp
  from cpu_reference[OF _ N(2) b B r] N
  obtain h where h: "computeHistogramCPU input h0 N B = Inr h" "length h = length h0"
    "\<forall>j<length h0. h ! j = (if int j < B
        then tally (\<lambda>k. uint (input ! nat k)) {0..<N} (int j) else h0 ! j)"
    by auto
  have "h = spec_histogram (map uint input) B"
  proof (rule spec_histogramI)
    show "length h = nat B" using h(2) len by simp
  next
    fix j assume j: "j < nat B"
    then have "int j < B" by linarith
    then show "h ! j = int (count_list (map uint input) (int j))"
      using h(3) j len by (simp add: tally_bytes[OF N(1)])
  qed
  with h(1) show ?thesis by simp
qed

lemma reference_histogram_eq:
  assumes N: "N = int (length input_data)" "N \<le> INT_MAX" and B: "0 \<le> B"
    and rng: "\<forall>v\<in>set input_data. in_range B v"
  shows "reference_histogram input_data N B = Inr (spec_histogram input_data B)"
proof -
  have r: "0 \<le> input_data ! nat k \<and> input_data ! nat k < B" if "0 \<le> k" "k < N" for k
  proof -
    have "nat k < length input_data" using that N by auto
    then have "input_data ! nat k \<in> set input_data" by simp
    then show ?thesis using rng by (auto simp: in_range_def)
  qed
  from reference_histogram_ok[OF _ N(2) B r] N
  obtain h where h: "reference_histogram input_data N B = Inr h" "length h = nat B"
    "\<forall>j<nat B. h ! j = tally (\<lambda>k. input_data ! nat k) {0..<N} (int j)"
    by auto
  have "h = spec_histogram input_data B"
    using h(2,3) by (intro spec_histogramI) (simp_all add: tally_samples[OF N(1)])
  with h(1) show ?thesis by simp
qed

text \<open>The hierarchical kernel on any initial global histogram.\<close>

lemma optimized_accumulates:
  assumes N: "N = int (length input)" and L: "launch_fits L N numBins"
    and len: "numBins \<le> int (length hist)"
  shows "\<exists>h written. computeHistogramOptimized L input hist N numBins = Inr (h, written)
           \<and> length h = length hist
           \<and> (\<forall>j<length hist. h ! j = (if int j < numBins
                  then bump (hist ! j) (int (count_list input (int j))) else hist ! j))
           \<and> (\<forall>k\<in>set written. 0 \<le> k \<and> k < numBins \<and> 0 < count_list input k)"
proof -
  have N0: "0 \<le> N" "N \<le> int (length input)" using N by simp_all
  have F: "0 < gridDim L" "0 < blockDim L" "N + 12 * int (blockDim L * gridDim L) \<le> INT_MAX"
    "numBins + int (blockDim L) \<le> INT_MAX + 1" "numBins \<le> int (sharedMemSize L div 4)"
    using L by (simp_all add: launch_fits_def)
  from optimized_kernel[OF F(1,2) N0 F(3,4,5) len]
  obtain h w where h: "computeHistogramOptimized L input hist N numBins = Inr (h, w)"
    "bumped hist (\<lambda>j. if int j < numBins
        then tally (\<lambda>k. input ! nat k) {0..<N} (int j) else 0) h"
    "set w \<subseteq> {k. 0 \<le> k \<and> k < numBins \<and> 0 < tally (\<lambda>k. input ! nat k) {0..<N} k}"
    by blast
  have "length h = length hist" using h(2) by (simp add: bumped_def)
  moreover have "\<forall>j<length hist. h ! j = (if int j < numBins
      then bump (hist ! j) (int (count_list input (int j))) else hist ! j)"
    using h(2) by (simp add: bumped_def tally_samples[OF N])
  moreover have "\<forall>k\<in>set w. 0 \<le> k \<and> k < numBins \<and> 0 < count_list input k"
    using h(3) by (auto simp: tally_samples[OF N])
  ultimately show ?thesis using h(1) by blast
qed

lemma optimized_histogram:
  assumes N: "N = int (length input)" and L: "launch_fits L N B"
  shows "\<exists>written. computeHistogramOptimized L input (replicate (nat B) 0) N B
           = Inr (spec_histogram input B, written)"
proof -
  have len: "B \<le> int (length (replicate (nat B) (0::int)))" by simp
  have "0 \<le> N" using N by simp
  then have Nmax: "int (length input) \<le> INT_MAX"
    using launch_fits_shared(7)[OF L] N by simp
  from optimized_accumulates[OF N L len]
  obtain h w where h: "computeHistogramOptimized L input (replicate (nat B) 0) N B = Inr (h, w)"
    "length h = nat B"
    "\<forall>j<nat B. h ! j = (if int j < B
        then bump (replicate (nat B) 0 ! j) (int (count_list input (int j)))
        else replicate (nat B) 0 ! j)"
    by auto
  have "h = spec_histogram input B"
  proof (rule spec_histogramI[OF h(2)])
    fix j assume j: "j < nat B"
    then have "int j < B" by linarith
    then have "h ! j = bump 0 (int (count_list input (int j)))" using h(3) j by simp
    then show "h ! j = int (count_list input (int j))"
      using bump_zero_count[OF Nmax] by simp
  qed
  with h(1) show ?thesis by blast
qed

section \<open>Sums, filters and the sentinel of the prefetch\<close>

lemma sum_indicator_upt:
  "sum_list (map (\<lambda>b. if x = int b then 1 else 0) [0..<n]) = (if 0 \<le> x \<and> x < int n then (1::int) else 0)"
  by (induction n) auto

lemma sum_spec_histogram:
  "sum_list (spec_histogram xs B) = int (length (filter (in_range B) xs))"
proof -
  have "sum_list (map (\<lambda>b. int (count_list xs (int b))) [0..<n])
      = int (length (filter (\<lambda>v. 0 \<le> v \<and> v < int n) xs))" for n
  proof (induction xs)
    case Nil
    then show ?case by simp
  next
    case (Cons x xs)
    have "sum_list (map (\<lambda>b. int (count_list (x # xs) (int b))) [0..<n])
        = sum_list (map (\<lambda>b. int (count_list xs (int b)) + (if x = int b then 1 else 0)) [0..<n])"
      by (intro arg_cong[where f = sum_list] map_cong) auto
    also have "\<dots> = sum_list (map (\<lambda>b. int (count_list xs (int b))) [0..<n])
        + sum_list (map (\<lambda>b. if x = int b then 1 else 0) [0..<n])"
      by (rule sum_list_addf)
    finally show ?case using Cons.IH by (simp add: sum_indicator_upt)
  qed
  from this[of "nat B"] show ?thesis
    by (cases "0 \<le> B") (auto simp: spec_histogram_def in_range_def intro!: arg_cong[where f = length] filter_cong)
qed

lemma count_list_filter_eq:
  "count_list (filter P xs) v = (if P v then count_list xs v else 0)"
  by (induction xs) auto

lemma spec_histogram_filter: "spec_histogram (filter (in_range B) xs) B = spec_histogram xs B"
  by (auto simp: spec_histogram_def count_list_filter_eq in_range_def)

lemma collect_sound:
  "collect f xs = Inr ys \<Longrightarrow> length ys = length xs \<and> (\<forall>k<length xs. f (xs ! k) = Inr (ys ! k))"
proof (induction xs arbitrary: ys)
  case Nil
  then show ?case by simp
next
  case (Cons x xs)
  from Cons.prems obtain y zs where y: "f x = Inr y" "collect f xs = Inr zs" "ys = y # zs"
    by (auto split: sum.splits)
  from Cons.IH[OF y(2)] have "length zs = length xs" "\<forall>k<length xs. f (xs ! k) = Inr (zs ! k)"
    by simp_all
  then show ?case using y by (auto simp: nth_Cons split: nat.splits)
qed

lemma collect_cong: "(\<And>x. x \<in> set xs \<Longrightarrow> f x = g x) \<Longrightarrow> collect f xs = collect g xs"
  by (induction xs) (simp_all cong: sum.case_cong)

lemma prefetch_sentinel:
  assumes "prefetch input N base stride = Inr vals" "i < 12" "N \<le> base + int i * stride"
  shows "vals ! i = - 1"
proof -
  let ?g = "\<lambda>i. case int32 (int i * stride) of Inl e \<Rightarrow> Inl e
                  | Inr off \<Rightarrow> (case int32 (base + off) of Inl e \<Rightarrow> Inl e
                  | Inr idx \<Rightarrow> if idx < N then load input idx else Inr (- 1))"
  from collect_sound[OF assms(1)[unfolded prefetch_def]] assms(2)
  have "?g i = Inr (vals ! i)" by (simp add: elementsPerThread_def)
  then show ?thesis
    using assms(3) by (auto simp: int32_def split: if_splits)
qed

lemma load_append: "i < int (length xs) \<Longrightarrow> load (xs @ ys) i = load xs i"
  by (auto simp: load_def nth_append)

lemma prefetch_append:
  assumes "N \<le> int (length input)"
  shows "prefetch (input @ extra) N base stride = prefetch input N base stride"
  unfolding prefetch_def
proof (rule collect_cong)
  fix i
  have "(if idx < N then load (input @ extra) idx else Inr (- 1))
      = (if idx < N then load input idx else Inr (- 1))" for idx
    using assms by (simp add: load_append)
  then show "(case int32 (int i * stride) of Inl e \<Rightarrow> Inl e
                  | Inr off \<Rightarrow> (case int32 (base + off) of Inl e \<Rightarrow> Inl e
                  | Inr idx \<Rightarrow> if idx < N then load (input @ extra) idx else Inr (- 1)))
      = (case int32 (int i * stride) of Inl e \<Rightarrow> Inl e
                  | Inr off \<Rightarrow> (case int32 (base + off) of Inl e \<Rightarrow> Inl e
                  | Inr idx \<Rightarrow> if idx < N then load input idx else Inr (- 1)))"
    by (simp split: sum.splits)
qed

lemma process_batch_append:
  assumes "N \<le> int (length input)"
  shows "process_batch (input @ extra) N = process_batch input N"
  by (intro ext) (simp add: process_batch_def prefetch_append[OF assms])

lemma optimized_thread_append:
  assumes "N \<le> int (length input)"
  shows "optimized_thread L (input @ extra) N = optimized_thread L input N"
  by (intro ext) (simp add: optimized_thread_def process_batch_append[OF assms] cong: sum.case_cong)

lemma accumulate_block_append:
  assumes "N \<le> int (length input)"
  shows "accumulate_block L (input @ extra) N = accumulate_block L input N"
  by (intro ext) (simp add: accumulate_block_def optimized_thread_append[OF assms] cong: sum.case_cong)

lemma optimized_block_append:
  assumes "N \<le> int (length input)"
  shows "optimized_block L (input @ extra) N = optimized_block L input N"
  by (intro ext) (simp add: optimized_block_def accumulate_block_append[OF assms] cong: sum.case_cong)

lemma optimized_append:
  assumes "N \<le> int (length input)"
  shows "computeHistogramOptimized L (input @ extra) hist N numBins
       = computeHistogramOptimized L input hist N numBins"
  by (simp add: computeHistogramOptimized_def optimized_block_append[OF assms])

section \<open>The entry point: no launch, launch, and the returned path\<close>

lemma length_read_ints [simp]: "length (read_ints fs path n) = n"
  by (auto simp: read_ints_def split: option.splits)

lemma ceil_div_zero: "ceil_div 0 b = 0"
  by (simp add: ceil_div_def)

lemma ceil_div_times:
  assumes "0 < b"
  shows "ceil_div a b * b \<le> a + (b - 1)"
proof -
  have "ceil_div a b = (a + (b - 1)) div b" using ceil_div_round_up[OF assms] by simp
  moreover have "(a + (b - 1)) div b * b \<le> a + (b - 1)"
  proof -
    have "(a + (b - 1)) div b * b = a + (b - 1) - (a + (b - 1)) mod b"
      by (simp add: minus_mod_eq_div_mult)
    moreover have "0 \<le> (a + (b - 1)) mod b" using assms by simp
    ultimately show ?thesis by linarith
  qed
  ultimately show ?thesis by simp
qed

lemma plan_grid_zero:
  assumes "0 \<le> numSMs" "numSMs \<le> 1048575"
  shows "\<exists>g. plan_grid numSMs 0 = Inr g \<and> g \<le> 0"
proof -
  have "plan_grid numSMs 0 = Inr (spec_unit_count numSMs 0)"
    using assms by (intro plan_grid_fits) simp_all
  moreover have "spec_unit_count numSMs 0 \<le> 0"
    by (simp add: spec_unit_count_def ceil_div_zero)
  ultimately show ?thesis by blast
qed

lemma compute_no_launch:
  assumes "0 \<le> N" "0 \<le> B" "plan_grid (numSMs_of (gpu w)) N = Inr g"
    and "\<not> launch_accepted (gpu w) g blockSize (wrap32 (B * 4))"
  shows "compute w input_path N B
       = (Inr (student_path w), w\<lparr>files := (files w)(student_path w \<mapsto> replicate (nat B) 0)\<rparr>)"
  using assms by (simp add: compute_def run_kernel_def Let_def)

lemma compute_launch:
  assumes N: "0 \<le> N" "N \<le> 1073735680" and B: "0 \<le> B" "B * 4 \<le> INT_MAX"
    and sm: "0 \<le> numSMs_of (gpu w)" "numSMs_of (gpu w) \<le> 1048575"
    and acc: "launch_accepted (gpu w) (spec_unit_count (numSMs_of (gpu w)) N) blockSize (wrap32 (B * 4))"
  shows "compute w input_path N B
       = (Inr (student_path w),
          w\<lparr>files := (files w)(student_path w \<mapsto>
             spec_histogram (read_ints ((files w)(student_path w \<mapsto> [])) input_path (nat N)) B)\<rparr>)"
proof -
  let ?g = "spec_unit_count (numSMs_of (gpu w)) N"
  let ?input = "read_ints ((files w)(student_path w \<mapsto> [])) input_path (nat N)"
  let ?L = "\<lparr>gridDim = nat ?g, blockDim = nat blockSize, sharedMemSize = nat (wrap32 (B * 4)),
            uninit = junk w\<rparr>"
  have plan: "plan_grid (numSMs_of (gpu w)) N = Inr ?g"
    using N sm by (intro plan_grid_fits) simp_all
  have g1: "1 \<le> ?g" using acc by (simp add: launch_accepted_def)
  have "?g \<le> ceil_div N (1024 * 12)" by (simp add: spec_unit_count_def)
  then have "?g * 12288 \<le> ceil_div N 12288 * 12288" by simp
  also have "\<dots> \<le> N + (12288 - 1)" by (rule ceil_div_times) simp
  finally have g2: "?g * 12288 \<le> N + 12287" by simp
  have w4: "wrap32 (B * 4) = B * 4"
    using B by (intro wrap32_id) (simp_all add: INT_MIN_def)
  have stride: "int (blockDim ?L * gridDim ?L) = 1024 * ?g"
    using g1 by (simp add: blockSize_def)
  have fits: "launch_fits ?L N B"
    unfolding launch_fits_def stride using g1 g2 N B w4
    by (simp add: blockSize_def INT_MAX_def)
  have len: "N = int (length ?input)" using N by simp
  from optimized_histogram[OF len fits]
  obtain written where k: "computeHistogramOptimized ?L ?input (replicate (nat B) 0) N B
      = Inr (spec_histogram ?input B, written)" by blast
  show ?thesis
    using N B plan acc k by (simp add: compute_def run_kernel_def Let_def)
qed

lemma compute_path:
  assumes "compute w input_path N B = (Inr p, w')"
  shows "p = student_path w \<and> temp_directory w' = temp_directory w
       \<and> (\<exists>h. files w' p = Some h)"
  using assms
  by (auto simp: compute_def Let_def split: if_splits sum.splits)

lemma run_kernel_files [simp]:
  "run_kernel (w\<lparr>files := f\<rparr>) g s d_input d_histogram N B = run_kernel w g s d_input d_histogram N B"
  by (simp add: run_kernel_def)

lemma compute_forgets_old_output:
  "compute (w\<lparr>files := (files w)(student_path w \<mapsto> old)\<rparr>) input_path N B
     = compute w input_path N B"
  by (simp add: compute_def student_path_def Let_def cong: sum.case_cong)

lemma compute_world:
  assumes "compute w input_path N B = (r, w')"
  shows "\<exists>h. w' = w\<lparr>files := (files w)(student_path w \<mapsto> h)\<rparr>"
  using assms
  by (auto simp: compute_def Let_def split: if_splits sum.splits)

section \<open>The harness on an output of zeros\<close>

lemma mismatch_head: "x \<noteq> y \<Longrightarrow> first_mismatch (x # xs) (y # ys) i = Some (i, x, y)"
  by simp

lemma spec_histogram_Cons:
  "0 < B \<Longrightarrow> spec_histogram samples B
     = int (count_list samples 0) # map (\<lambda>b. int (count_list samples (int b))) [1..<nat B]"
  by (simp add: spec_histogram_def upt_conv_Cons del: upt_Suc)

lemma replicate_Cons: "0 < n \<Longrightarrow> replicate n x = x # replicate (n - 1) x"
  by (cases n) simp_all

lemma length_spec_histogram: "length (spec_histogram samples B) = nat B"
  by (simp add: spec_histogram_def)

lemma read_ints_whole:
  "fs path = Some content \<Longrightarrow> length content = n \<Longrightarrow> read_ints fs path n = content"
  by (simp add: read_ints_def)

text \<open>
  Whenever the footprint \<open>B * 4\<close> is above the limit of the device, \<^verbatim>\<open>compute\<close>
  returns the output path and a file of \<open>B\<close> zeros: the launch is rejected and no
  error code is read.
\<close>

lemma compute_oversized_footprint:
  assumes "0 \<le> N" and "N \<le> 2147471359" and "0 \<le> B" and "B * 4 \<le> INT_MAX"
    and "0 \<le> numSMs_of (gpu w)" and "numSMs_of (gpu w) \<le> 1048575"
    and "sharedMemPerBlock (gpu w) < B * 4"
  shows "compute w input_path N B
       = (Inr (student_path w), w\<lparr>files := (files w)(student_path w \<mapsto> replicate (nat B) 0)\<rparr>)"
proof -
  have p: "plan_grid (numSMs_of (gpu w)) N = Inr (spec_unit_count (numSMs_of (gpu w)) N)"
    using assms by (intro plan_grid_fits) simp_all
  have "wrap32 (B * 4) = B * 4"
    using assms(3,4) by (intro wrap32_id) (simp_all add: INT_MIN_def)
  then have r: "\<not> launch_accepted (gpu w) (spec_unit_count (numSMs_of (gpu w)) N) blockSize
      (wrap32 (B * 4))"
    using assms(7) by (simp add: launch_accepted_def)
  show ?thesis by (rule compute_no_launch[OF assms(1,3) p r])
qed

section \<open>The claims\<close>

text \<open>
  C1 (corrected).  The claim: for every sample array and every bin count the naive
  kernel, the shared-memory kernel, the hierarchical kernel and the sequential reference
  produce the same histogram.  It fails for a sample outside \<open>[0, B)\<close>: the
  hierarchical kernel drops the sample 5 for four bins, while the naive kernel and the
  sequential references index the histogram with it, which is an access outside a
  histogram of four cells and a count in cell 5 of a longer one.
\<close>

theorem strategies_differ_out_of_range:
  "computeHistogramOptimized launch_1x1 [5] [0, 0, 0, 0] 1 4 = Inr ([0, 0, 0, 0], [])
   \<and> computeHistogramNaive launch_1x1 [5] [0, 0, 0, 0] 1 4 = Inl OutOfBounds
   \<and> computeHistogramCPU [5] [0, 0, 0, 0] 1 4 = Inl OutOfBounds
   \<and> reference_histogram [5] 1 4 = Inl OutOfBounds
   \<and> computeHistogramOptimized launch_1x1 [5] [0, 0, 0, 0, 0, 0] 1 4
       = Inr ([0, 0, 0, 0, 0, 0], [])
   \<and> computeHistogramNaive launch_1x1 [5] [0, 0, 0, 0, 0, 0] 1 4 = Inr [0, 0, 0, 0, 0, 1]"
  by code_simp

text \<open>
  C1 as amended: for every array of \<open>N\<close> unsigned 8-bit samples that are all smaller
  than \<open>B\<close>, the naive kernel launched with at least \<open>N\<close> threads, the shared-memory
  kernel, the sequential reference of \<^verbatim>\<open>main.cu\<close>, and the hierarchical kernel and
  the reference of the harness on the same values as \<^verbatim>\<open>int\<close>, all return the
  histogram of the samples, from a zeroed histogram of \<open>B\<close> bins and under launches that
  fit.
\<close>

theorem strategies_agree_in_range:
  fixes input :: "8 word list"
  assumes "N = int (length input)" and "0 \<le> B" and "\<forall>x\<in>set input. uint x < B"
    and "launch_covers Ln N" and "launch_fits Ls N B" and "launch_fits Lo N B"
    and "length h0 = nat B"
  shows "computeHistogramNaive Ln input (replicate (nat B) 0) N B
           = Inr (spec_histogram (map uint input) B)
       \<and> computeHistogramShared Ls input (replicate (nat B) 0) N B
           = Inr (spec_histogram (map uint input) B)
       \<and> (\<exists>written. computeHistogramOptimized Lo (map uint input) (replicate (nat B) 0) N B
           = Inr (spec_histogram (map uint input) B, written))
       \<and> computeHistogramCPU input h0 N B = Inr (spec_histogram (map uint input) B)
       \<and> reference_histogram (map uint input) N B = Inr (spec_histogram (map uint input) B)"
proof -
  have N0: "0 \<le> N" using assms(1) by simp
  note F = launch_fits_shared[OF assms(5) N0]
  have Bmax: "B \<le> INT_MAX" using F(2,5) by linarith
  have slots: "\<forall>x\<in>set input. uint x < int (sharedMemSize Ls div 4)"
    using assms(3) F(6) by fastforce
  have len: "N = int (length (map uint input))" using assms(1) by simp
  have rng: "\<forall>v\<in>set (map uint input). in_range B v"
    using assms(3) by (simp add: in_range_def)
  show ?thesis
    using naive_histogram[OF assms(1,3,4)] shared_histogram[OF assms(1) slots assms(5)]
      optimized_histogram[OF len assms(6)] cpu_histogram[OF assms(1) F(7) assms(3) Bmax assms(7)]
      reference_histogram_eq[OF len F(7) assms(2) rng]
    by simp
qed

theorem strategies_agree_in_range_witness:
  "computeHistogramNaive launch_4x3 scenario_bytes (replicate (nat 4) 0) 10 4
           = Inr (spec_histogram (map uint scenario_bytes) 4)
       \<and> computeHistogramShared launch_2x3 scenario_bytes (replicate (nat 4) 0) 10 4
           = Inr (spec_histogram (map uint scenario_bytes) 4)
       \<and> (\<exists>written. computeHistogramOptimized launch_2x3 (map uint scenario_bytes)
             (replicate (nat 4) 0) 10 4
           = Inr (spec_histogram (map uint scenario_bytes) 4, written))
       \<and> computeHistogramCPU scenario_bytes [9, 9, 9, 9] 10 4
           = Inr (spec_histogram (map uint scenario_bytes) 4)
       \<and> reference_histogram (map uint scenario_bytes) 10 4
           = Inr (spec_histogram (map uint scenario_bytes) 4)
       \<and> spec_histogram (map uint scenario_bytes) 4 = [2, 3, 2, 3]"
proof -
  have n: "(10::int) = int (length scenario_bytes)"
    by (simp add: scenario_bytes_def)
  have b: "(0::int) \<le> 4" by simp
  have r: "\<forall>x\<in>set scenario_bytes. uint x < 4"
    by (simp add: scenario_bytes_def)
  have c: "launch_covers launch_4x3 10"
    by (simp add: launch_covers_def launch_4x3_def INT_MAX_def)
  have f: "launch_fits launch_2x3 10 4"
    by (simp add: launch_fits_def launch_2x3_def INT_MAX_def)
  have l: "length [9, 9, 9, 9 :: int] = nat 4" by simp
  have e: "spec_histogram (map uint scenario_bytes) 4 = [2, 3, 2, 3]"
    by code_simp
  from strategies_agree_in_range[OF n b r c f f l] e show ?thesis
    by (intro conjI) (elim conjE, assumption)+
qed

text \<open>
  C2 (confirmed).  For every sample array of length \<open>N\<close> and every bin count \<open>B\<close>, the
  histogram that the hierarchical kernel produces from a zeroed histogram sums to the
  number of samples whose value lies in \<open>[0, B)\<close>; the launch is any launch that fits.
\<close>

theorem optimized_sum_in_range:
  assumes "N = int (length input)" and "launch_fits L N B"
  shows "\<exists>h written. computeHistogramOptimized L input (replicate (nat B) 0) N B = Inr (h, written)
           \<and> sum_list h = int (length (filter (in_range B) input))"
  using optimized_histogram[OF assms] by (auto simp: sum_spec_histogram)

theorem optimized_sum_in_range_witness:
  "\<exists>h written. computeHistogramOptimized launch_2x3 (scenario @ [5, - 1]) (replicate (nat 4) 0) 12 4
       = Inr (h, written)
     \<and> sum_list h = 10"
proof -
  have n: "(12::int) = int (length (scenario @ [5, - 1]))"
    by (simp add: scenario_def)
  have f: "launch_fits launch_2x3 12 4"
    by (simp add: launch_fits_def launch_2x3_def INT_MAX_def)
  have e: "int (length (filter (in_range 4) (scenario @ [5, - 1]))) = 10"
    by (simp add: scenario_def in_range_def)
  from optimized_sum_in_range[OF n f] show ?thesis
    unfolding e .
qed

text \<open>
  C3 (corrected).  The claim: both the shared-memory kernel and the hierarchical kernel
  filter the samples outside \<open>[0, B)\<close> before counting and do not fail.  The
  shared-memory kernel has no filter: with shared memory for four bins the sample 5 is
  an access outside the shared accumulator.
\<close>

theorem shared_kernel_has_no_filter:
  "computeHistogramShared launch_1x1 [5] [0, 0, 0, 0] 1 4 = Inl OutOfBounds"
  by code_simp

text \<open>
  C3 as amended: for every input the hierarchical kernel returns the histogram of the
  samples in \<open>[0, B)\<close> alone and does not fail; the shared-memory kernel does so when
  every sample is below the number of cells of the shared memory of a block.
\<close>

theorem out_of_range_samples_dropped:
  fixes bytes :: "8 word list"
  assumes "N = int (length input)" and "launch_fits L N B"
    and "M = int (length bytes)" and "launch_fits Ls M B"
    and "\<forall>x\<in>set bytes. uint x < int (sharedMemSize Ls div 4)"
  shows "(\<exists>written. computeHistogramOptimized L input (replicate (nat B) 0) N B
            = Inr (spec_histogram (filter (in_range B) input) B, written))
       \<and> computeHistogramShared Ls bytes (replicate (nat B) 0) M B
            = Inr (spec_histogram (filter (in_range B) (map uint bytes)) B)"
  using optimized_histogram[OF assms(1,2)] shared_histogram[OF assms(3,5,4)]
  by (simp add: spec_histogram_filter)

theorem out_of_range_samples_dropped_witness:
  "(\<exists>written. computeHistogramOptimized launch_2x3 (scenario @ [5, - 1]) (replicate (nat 4) 0) 12 4
            = Inr (spec_histogram (filter (in_range 4) (scenario @ [5, - 1])) 4, written))
       \<and> computeHistogramShared launch_wide (scenario_bytes @ [5]) (replicate (nat 4) 0) 11 4
            = Inr (spec_histogram (filter (in_range 4) (map uint (scenario_bytes @ [5]))) 4)
       \<and> spec_histogram (filter (in_range 4) (scenario @ [5, - 1])) 4 = [2, 3, 2, 3]"
proof -
  have n: "(12::int) = int (length (scenario @ [5, - 1]))"
    by (simp add: scenario_def)
  have f: "launch_fits launch_2x3 12 4"
    by (simp add: launch_fits_def launch_2x3_def INT_MAX_def)
  have m: "(11::int) = int (length (scenario_bytes @ [5]))"
    by (simp add: scenario_bytes_def)
  have g: "launch_fits launch_wide 11 4"
    by (simp add: launch_fits_def launch_wide_def INT_MAX_def)
  have r: "\<forall>x\<in>set (scenario_bytes @ [5]). uint x < int (sharedMemSize launch_wide div 4)"
    by (simp add: scenario_bytes_def launch_wide_def)
  have e: "spec_histogram (filter (in_range 4) (scenario @ [5, - 1])) 4 = [2, 3, 2, 3]"
    by code_simp
  from out_of_range_samples_dropped[OF n f m g r] e show ?thesis
    by (intro conjI) (elim conjE, assumption)+
qed

text \<open>
  C4 (code bug).  The claim: when the shared-memory footprint \<open>B * sizeof(count)\<close> is
  above the on-chip memory budget, the planner fails and the caller sees a configuration
  error before any device work.  \<^verbatim>\<open>compute\<close> never compares the footprint with
  the limit and reads no CUDA error code.  On a V100 with 12289 bins (49156 bytes
  against 49152) and the ten samples of the first scenario it returns the output path
  as for a success, and the file holds 12289 zeros; the harness, whose reference
  histogram has 2 in bin 0, then reports a histogram mismatch in place of the
  configuration error.
\<close>

theorem compute_ignores_the_shared_memory_limit:
  "\<not> spec_footprint_fits (gpu lab) 12289
   \<and> compute lab ''/tmp/input-10.dat'' 10 12289
       = (Inr ''/tmp/student_histogram.dat'',
          lab\<lparr>files := (files lab)(''/tmp/student_histogram.dat'' \<mapsto> replicate (nat 12289) 0)\<rparr>)
   \<and> reference_histogram scenario 10 12289 = Inr (spec_histogram scenario 12289)
   \<and> first_mismatch (spec_histogram scenario 12289) (replicate (nat 12289) 0) 0 = Some (0, 2, 0)
   \<and> main lab [''tester'', ''10'', ''12289''] (stale 0) 5
       = Exit 0 [''[1/4] Looking for input file'',
              CHR 0x09 # ''- Input file: /tmp/input-10.dat found, using existing input file'',
              ''[2/4] Looking for verification file /tmp/sol-10-12289.dat'',
              ''[3/4] Verification file not found. Creating new verification data'',
              ''[4/4] Running student solution'', ''-1'']
           [''Histogram mismatch at bin 0: expected 2, got 0'']"
proof -
  let ?in = "''/tmp/input-10.dat''" and ?sol = "''/tmp/sol-10-12289.dat''"
    and ?out = "''/tmp/student_histogram.dat''"
  let ?ref = "spec_histogram scenario 12289"
  let ?w4 = "lab\<lparr>files := (files lab)(?sol \<mapsto> ?ref)\<rparr>"
  let ?w5 = "lab\<lparr>files := (files lab)(?sol \<mapsto> ?ref, ?out \<mapsto> replicate 12289 0)\<rparr>"
  have limit: "\<not> spec_footprint_fits (gpu lab) 12289"
    by (simp add: spec_footprint_fits_def lab_def V100_def)
  have p: "plan_grid (numSMs_of (gpu lab)) 10 = Inr 1"
    by code_simp
  have r: "\<not> launch_accepted (gpu lab) 1 blockSize (wrap32 (12289 * 4))"
    by (simp add: launch_accepted_def lab_def V100_def wrap32_def)
  have sp: "student_path lab = ?out"
    by (simp add: student_path_def path_append_def lab_def)
  have "compute lab ?in 10 12289
      = (Inr (student_path lab),
         lab\<lparr>files := (files lab)(student_path lab \<mapsto> replicate (nat 12289) 0)\<rparr>)"
    by (rule compute_no_launch[OF _ _ p r]) simp_all
  then have c: "compute lab ?in 10 12289
      = (Inr ?out, lab\<lparr>files := (files lab)(?out \<mapsto> replicate (nat 12289) 0)\<rparr>)"
    unfolding sp .
  have rng: "\<forall>v\<in>set scenario. in_range 12289 v"
    by (simp add: scenario_def in_range_def)
  have ref: "reference_histogram scenario 10 12289 = Inr ?ref"
    by (rule reference_histogram_eq[OF _ _ _ rng]) (simp_all add: scenario_def INT_MAX_def)
  have c0: "int (count_list scenario 0) = 2" by code_simp
  have h1: "?ref = 2 # map (\<lambda>b. int (count_list scenario (int b))) [1..<nat 12289]"
    using spec_histogram_Cons[of 12289 scenario] c0 by simp
  have h2: "replicate (nat 12289) (0::int) = 0 # replicate (nat 12289 - 1) 0"
    by (rule replicate_Cons) simp
  have mm: "first_mismatch ?ref (replicate (nat 12289) 0) 0 = Some (0, 2, 0)"
    unfolding h1 h2 by (rule mismatch_head) simp
  have a1: "atoi ''10'' = Some 10" by code_simp
  have a2: "atoi ''12289'' = Some 12289" by code_simp
  have ts: "to_string 10 = ''10''" "to_string 12289 = ''12289''" "to_string 2 = ''2''"
      "to_string 0 = ''0''"
    by (simp_all add: to_string_def, code_simp+)
  have td: "temp_directory lab = ''/tmp''" by (simp add: lab_def)
  have p1: "path_append (temp_directory lab) (''input-'' @ to_string 10 @ ''.dat'') = ?in"
    unfolding ts td by (simp add: path_append_def)
  have p2: "path_append (temp_directory lab) (''sol-'' @ to_string 10 @ ''-'' @ to_string 12289 @ ''.dat'') = ?sol"
    unfolding ts td by (simp add: path_append_def)
  have f1: "files lab ?in = Some scenario" by (simp add: lab_def)
  have f2: "files lab ?sol = None" by (simp add: lab_def)
  have rd: "read_ints (files lab) ?in 10 = scenario"
    by (rule read_ints_whole[where content = scenario]) (simp_all add: f1, simp add: scenario_def)
  have g: "gen_input lab (stale 0) 12289 ?in 10 [''[1/4] Looking for input file'']
      = (Inr (scenario, lab), [''[1/4] Looking for input file'',
           CHR 0x09 # ''- Input file: /tmp/input-10.dat found, using existing input file''])"
    by (simp add: gen_input_def f1 rd)
  have m: "make_reference lab scenario ?sol 10 12289 out
      = (Inr ?w4, out @ [''[3/4] Verification file not found. Creating new verification data''])" for out
    by (simp add: make_reference_def f2 ref Let_def)
  have p4: "plan_grid (numSMs_of (gpu ?w4)) 10 = Inr 1" using p by simp
  have r4: "\<not> launch_accepted (gpu ?w4) 1 blockSize (wrap32 (12289 * 4))" using r by simp
  have sp4: "student_path ?w4 = ?out"
    by (simp add: student_path_def path_append_def lab_def)
  have "compute ?w4 ?in 10 12289
      = (Inr (student_path ?w4),
         ?w4\<lparr>files := (files ?w4)(student_path ?w4 \<mapsto> replicate (nat 12289) 0)\<rparr>)"
    by (rule compute_no_launch[OF _ _ p4 r4]) simp_all
  then have c4: "compute ?w4 ?in 10 12289 = (Inr ?out, ?w5)"
    unfolding sp4 by simp
  have r5a: "read_ints (files ?w5) ?sol (nat 12289) = ?ref"
    by (rule read_ints_whole[where content = ?ref]) (simp_all add: length_spec_histogram)
  have r5b: "read_ints (files ?w5) ?out (nat 12289) = replicate (nat 12289) 0"
    by (rule read_ints_whole[where content = "replicate (nat 12289) 0"]) simp_all
  have v: "verify ?w5 ?sol ?out 12289 out
      = (Inl (Graceful ''Histogram mismatch at bin 0: expected 2, got 0''), out)" for out
    unfolding verify_def r5a r5b mm by (simp add: ts)
  have tb: "try_block lab [''tester'', ''10'', ''12289''] (stale 0) 5
      = (Inl (Graceful ''Histogram mismatch at bin 0: expected 2, got 0''),
         [''[1/4] Looking for input file'',
          CHR 0x09 # ''- Input file: /tmp/input-10.dat found, using existing input file'',
          ''[2/4] Looking for verification file /tmp/sol-10-12289.dat'',
          ''[3/4] Verification file not found. Creating new verification data'',
          ''[4/4] Running student solution''])"
    unfolding try_block_def by (simp add: a1 a2 ts td path_append_def g m c4 v Let_def)
  have mn: "main lab [''tester'', ''10'', ''12289''] (stale 0) 5
       = Exit 0 [''[1/4] Looking for input file'',
              CHR 0x09 # ''- Input file: /tmp/input-10.dat found, using existing input file'',
              ''[2/4] Looking for verification file /tmp/sol-10-12289.dat'',
              ''[3/4] Verification file not found. Creating new verification data'',
              ''[4/4] Running student solution'', ''-1'']
           [''Histogram mismatch at bin 0: expected 2, got 0'']"
    by (simp add: main_def tb terminate_gracefully_def)
  from limit c ref mm mn show ?thesis by blast
qed

text \<open>
  C5 (code bug).  The claim: for every \<open>N\<close> and every multiprocessor count the grid
  size is the smaller of the two rounded-up quotients.  The planner rounds up by adding
  \<open>blockSize * 12 - 1\<close> to \<open>N\<close> in \<^verbatim>\<open>int\<close>, which overflows for \<open>N\<close> above
  2147471359: at \<open>N = 2147483647\<close> on 80 multiprocessors the claim gives 160 and the
  code has no defined value.  Inside the range the claim holds (\<open>plan_grid_fits\<close>).
\<close>

theorem plan_grid_overflows:
  "plan_grid 80 2147483647 = Inl Overflow \<and> spec_unit_count 80 2147483647 = 160"
  by code_simp

text \<open>
  C6 (confirmed).  For every bin count \<open>B\<close>, \<^verbatim>\<open>compute\<close> with \<open>N = 0\<close> writes a
  histogram of \<open>B\<close> zeros: the work-covering bound is 0, the runtime rejects the empty
  grid, and the zeroed device histogram is copied back.
\<close>

theorem compute_without_samples:
  assumes "0 \<le> B" and "0 \<le> numSMs_of (gpu w)" and "numSMs_of (gpu w) \<le> 1048575"
  shows "compute w input_path 0 B
       = (Inr (student_path w), w\<lparr>files := (files w)(student_path w \<mapsto> replicate (nat B) 0)\<rparr>)"
proof -
  from plan_grid_zero[OF assms(2,3)]
  obtain g where g: "plan_grid (numSMs_of (gpu w)) 0 = Inr g" "g \<le> 0" by blast
  have r: "\<not> launch_accepted (gpu w) g blockSize (wrap32 (B * 4))"
    using g(2) by (simp add: launch_accepted_def)
  show ?thesis by (rule compute_no_launch[OF _ assms(1) g(1) r]) simp
qed

theorem compute_without_samples_witness:
  "compute lab ''/tmp/input-0.dat'' 0 5
     = (Inr (student_path lab), lab\<lparr>files := (files lab)(student_path lab \<mapsto> replicate (nat 5) 0)\<rparr>)
   \<and> replicate (nat 5) (0::int) = [0, 0, 0, 0, 0]"
proof -
  have s: "0 \<le> numSMs_of (gpu lab)" "numSMs_of (gpu lab) \<le> 1048575"
    by (simp_all add: numSMs_of_def lab_def V100_def)
  have b: "(0::int) \<le> 5" by simp
  have e: "replicate (nat 5) (0::int) = [0, 0, 0, 0, 0]" by code_simp
  from compute_without_samples[OF b s] e show ?thesis by blast
qed

text \<open>
  C7 (confirmed).  Every run of the harness that ends with an exit code ends with 0.
  A handled failure, which is a call of \<^verbatim>\<open>__terminate_gracefully\<close> or a caught
  \<^verbatim>\<open>std::exception\<close>, prints -1 as the last line of standard output and the
  diagnostic on standard error; a success prints nothing on standard error.
\<close>

theorem harness_exit_code:
  "(main w argv draw elapsed = Exit code out err \<longrightarrow> code = 0)
   \<and> (try_block w argv draw elapsed = (Inl (Graceful msg), out0)
        \<or> try_block w argv draw elapsed = (Inl (Thrown msg), out0)
      \<longrightarrow> main w argv draw elapsed = Exit 0 (out0 @ [''-1'']) [msg])
   \<and> (try_block w argv draw elapsed = (Inr u, out0)
      \<longrightarrow> main w argv draw elapsed = Exit 0 out0 [])"
  by (auto simp: main_def terminate_gracefully_def split: prod.splits sum.splits stop.splits)

theorem harness_exit_code_witness:
  "main lab [''tester''] (stale 0) 5
     = Exit 0 ([] @ [''-1'']) [''Usage: ./tester.out <N> <B> <optional:seed>'']
   \<and> main lab [''tester'', ''-3'', ''4''] (stale 0) 5
     = Exit 0 ([''[1/4] Looking for input file''] @ [''-1'']) [''std::bad_array_new_length'']
   \<and> main lab [''tester'', ''0'', ''4''] (stale 0) 5
     = Exit 0 (snd (try_block lab [''tester'', ''0'', ''4''] (stale 0) 5)) []
   \<and> last (snd (try_block lab [''tester'', ''0'', ''4''] (stale 0) 5)) = ''Execution time: 5 ms''"
proof -
  have a: "try_block lab [''tester''] (stale 0) 5
      = (Inl (Graceful ''Usage: ./tester.out <N> <B> <optional:seed>''), [])"
    by code_simp
  have b: "try_block lab [''tester'', ''-3'', ''4''] (stale 0) 5
      = (Inl (Thrown ''std::bad_array_new_length''), [''[1/4] Looking for input file''])"
    by code_simp
  have c: "fst (try_block lab [''tester'', ''0'', ''4''] (stale 0) 5) = Inr ()"
    by code_simp
  have d: "last (snd (try_block lab [''tester'', ''0'', ''4''] (stale 0) 5)) = ''Execution time: 5 ms''"
    by code_simp
  have c': "try_block lab [''tester'', ''0'', ''4''] (stale 0) 5
      = (Inr (), snd (try_block lab [''tester'', ''0'', ''4''] (stale 0) 5))"
    using c by (cases "try_block lab [''tester'', ''0'', ''4''] (stale 0) 5") simp
  from harness_exit_code[of lab "[''tester'']" "stale 0" 5] a
  have 1: "main lab [''tester''] (stale 0) 5
     = Exit 0 ([] @ [''-1'']) [''Usage: ./tester.out <N> <B> <optional:seed>'']"
    by blast
  from harness_exit_code[of lab "[''tester'', ''-3'', ''4'']" "stale 0" 5] b
  have 2: "main lab [''tester'', ''-3'', ''4''] (stale 0) 5
     = Exit 0 ([''[1/4] Looking for input file''] @ [''-1'']) [''std::bad_array_new_length'']"
    by blast
  from harness_exit_code[of lab "[''tester'', ''0'', ''4'']" "stale 0" 5] c'
  have 3: "main lab [''tester'', ''0'', ''4''] (stale 0) 5
     = Exit 0 (snd (try_block lab [''tester'', ''0'', ''4''] (stale 0) 5)) []"
    by blast
  from 1 2 3 d show ?thesis by blast
qed

text \<open>
  C8 (confirmed).  The hierarchical kernel adds to the global histogram and never
  overwrites it: for every initial global histogram, after the kernel the bin \<open>b\<close>
  holds its initial value plus the number of samples equal to \<open>b\<close> (as a 32-bit atomic
  addition, exact when the sum fits), the cells above the bins are unchanged, a bin is
  written only when its count is positive, and the final reduction of a block writes
  exactly the bins whose shared count is positive.  So the bin holds the count alone
  exactly when it was zero before, which is what the \<^verbatim>\<open>cudaMemsetAsync\<close> of
  \<^verbatim>\<open>compute\<close> provides.
\<close>

theorem optimized_kernel_accumulates:
  assumes "N = int (length input)" and "launch_fits L N numBins"
    and "numBins \<le> int (length hist)"
  shows "\<exists>h written. computeHistogramOptimized L input hist N numBins = Inr (h, written)
           \<and> length h = length hist
           \<and> (\<forall>b<length hist. int b < numBins \<longrightarrow>
                 h ! b = bump (hist ! b) (int (count_list input (int b)))
                 \<and> (INT_MIN \<le> hist ! b + int (count_list input (int b))
                      \<and> hist ! b + int (count_list input (int b)) \<le> INT_MAX
                    \<longrightarrow> h ! b = hist ! b + int (count_list input (int b))
                        \<and> (h ! b = int (count_list input (int b)) \<longleftrightarrow> hist ! b = 0)))
           \<and> (\<forall>b<length hist. numBins \<le> int b \<longrightarrow> h ! b = hist ! b)
           \<and> (\<forall>k\<in>set written. 0 \<le> k \<and> k < numBins \<and> 0 < count_list input k)
           \<and> (\<forall>sh w0 h' w'. numBins \<le> int (length sh)
                 \<and> flush_global L numBins sh (hist, w0) = Inr (h', w')
               \<longrightarrow> set w' = set w0 \<union> {k. 0 \<le> k \<and> k < numBins \<and> 0 < sh ! nat k})"
proof -
  from optimized_accumulates[OF assms]
  obtain h written where k: "computeHistogramOptimized L input hist N numBins = Inr (h, written)"
    "length h = length hist"
    "\<forall>j<length hist. h ! j = (if int j < numBins
        then bump (hist ! j) (int (count_list input (int j))) else hist ! j)"
    "\<forall>k\<in>set written. 0 \<le> k \<and> k < numBins \<and> 0 < count_list input k"
    by blast
  have exact: "h ! b = hist ! b + int (count_list input (int b))
      \<and> (h ! b = int (count_list input (int b)) \<longleftrightarrow> hist ! b = 0)"
    if "b < length hist" "int b < numBins"
      "INT_MIN \<le> hist ! b + int (count_list input (int b))"
      "hist ! b + int (count_list input (int b)) \<le> INT_MAX" for b
  proof -
    have "h ! b = bump (hist ! b) (int (count_list input (int b)))"
      using k(3) that(1,2) by simp
    also have "\<dots> = hist ! b + int (count_list input (int b))"
      using that(3,4) by (intro bump_exact) simp_all
    finally show ?thesis by simp
  qed
  have F: "0 < blockDim L" "numBins + int (blockDim L) \<le> INT_MAX + 1"
    using assms(2) by (simp_all add: launch_fits_def)
  have flush: "set w' = set w0 \<union> {k. 0 \<le> k \<and> k < numBins \<and> 0 < sh ! nat k}"
    if "numBins \<le> int (length sh)" "flush_global L numBins sh (hist, w0) = Inr (h', w')"
    for sh w0 h' w'
    using flush_global_ok[OF F assms(3) that(1), of w0] that(2) by auto
  show ?thesis
    using k exact flush by (intro exI[of _ h] exI[of _ written]) (simp; blast)
qed

theorem optimized_kernel_accumulates_witness:
  "\<exists>h written. computeHistogramOptimized launch_2x3 scenario [10, 20, 30, 40, 50] 10 4
       = Inr (h, written)
     \<and> h ! 1 = 20 + int (count_list scenario 1) \<and> h ! 4 = 50
     \<and> 20 + int (count_list scenario 1) = 23"
proof -
  let ?hist = "[10, 20, 30, 40, 50] :: int list"
  have n: "(10::int) = int (length scenario)" by (simp add: scenario_def)
  have f: "launch_fits launch_2x3 10 4"
    by (simp add: launch_fits_def launch_2x3_def INT_MAX_def)
  have l: "(4::int) \<le> int (length ?hist)" by simp
  have e: "20 + int (count_list scenario 1) = 23" by code_simp
  from optimized_kernel_accumulates[OF n f l]
  obtain h written where k:
    "computeHistogramOptimized launch_2x3 scenario ?hist 10 4 = Inr (h, written)"
    and k2: "\<forall>b<length ?hist. int b < 4 \<longrightarrow>
        h ! b = bump (?hist ! b) (int (count_list scenario (int b)))
        \<and> (INT_MIN \<le> ?hist ! b + int (count_list scenario (int b))
             \<and> ?hist ! b + int (count_list scenario (int b)) \<le> INT_MAX
           \<longrightarrow> h ! b = ?hist ! b + int (count_list scenario (int b))
               \<and> (h ! b = int (count_list scenario (int b)) \<longleftrightarrow> ?hist ! b = 0))"
    and k3: "\<forall>b<length ?hist. 4 \<le> int b \<longrightarrow> h ! b = ?hist ! b"
    by blast
  have "h ! 1 = 20 + int (count_list scenario 1)"
    using k2[rule_format, of 1] e by (simp add: INT_MIN_def INT_MAX_def)
  moreover have "h ! 4 = 50"
    using k3[rule_format, of 4] by simp
  ultimately show ?thesis using k e by blast
qed

text \<open>
  C9 (confirmed).  In the batched prefetch of the hierarchical kernel every slot whose
  index is \<open>N\<close> or more holds the sentinel -1, the classification leaves every counter
  as it is for -1, and so, for every \<open>N\<close> and every launch, what lies behind the \<open>N\<close>
  samples of the array has no effect on the result of the kernel.
\<close>

theorem prefetch_tail_is_sentinel:
  assumes "N = int (length input)"
  shows "(\<forall>base stride vals i. prefetch input N base stride = Inr vals \<and> i < 12
              \<and> N \<le> base + int i * stride \<longrightarrow> vals ! i = - 1)
       \<and> (\<forall>st. classify numBins (- 1) st = Inr st)
       \<and> (\<forall>extra. computeHistogramOptimized L (input @ extra) hist N numBins
              = computeHistogramOptimized L input hist N numBins)"
proof -
  have "N \<le> int (length input)" using assms by simp
  then show ?thesis
    using prefetch_sentinel[of input N] classify_sentinel[of numBins]
    by (simp add: optimized_append) blast
qed

theorem prefetch_tail_is_sentinel_witness:
  "prefetch scenario 10 4 6 = Inr [3, - 1, - 1, - 1, - 1, - 1, - 1, - 1, - 1, - 1, - 1, - 1]
   \<and> [3, - 1, - 1, - 1, - 1, - 1, - 1, - 1, - 1, - 1, - 1, - 1 :: int] ! 1 = - 1
   \<and> computeHistogramOptimized launch_2x3 (scenario @ [0, 0, 0]) [0, 0, 0, 0] 10 4
       = computeHistogramOptimized launch_2x3 scenario [0, 0, 0, 0] 10 4"
proof -
  have n: "(10::int) = int (length scenario)" by (simp add: scenario_def)
  have p: "prefetch scenario 10 4 6 = Inr [3, - 1, - 1, - 1, - 1, - 1, - 1, - 1, - 1, - 1, - 1, - 1]"
    by code_simp
  have i: "(1::nat) < 12 \<and> (10::int) \<le> 4 + int 1 * 6" by simp
  from prefetch_tail_is_sentinel[OF n, of 4 launch_2x3 "[0, 0, 0, 0]"] p i
  show ?thesis by blast
qed

text \<open>
  C10 (confirmed).  Whenever \<^verbatim>\<open>compute\<close> returns, it returns the path of
  \<^verbatim>\<open>student_histogram.dat\<close> in the temporary directory, whatever the input path,
  \<open>N\<close> and \<open>B\<close> are, and the world after the call is the world before it with the
  file at that path replaced.  In the range of its arithmetic it does return, and the
  file holds the histogram of the samples it has read (\<open>B\<close> zeros when the runtime has
  rejected the launch).  A second call overwrites the output of the first: its result
  and the files it leaves are those of the same call made in the world before the first
  call, so that the file holds the histogram of the second call and nothing of the
  first, and no other file has changed.
\<close>

theorem compute_output_path:
  "(compute w input_path N B = (Inr p, w')
      \<longrightarrow> p = path_append (temp_directory w) ''student_histogram.dat''
          \<and> temp_directory w' = temp_directory w
          \<and> (\<exists>h. w' = w\<lparr>files := (files w)(p \<mapsto> h)\<rparr>))
   \<and> (compute w path1 N1 B1 = (Inr p1, w1)
      \<longrightarrow> compute w1 path2 N2 B2 = compute w path2 N2 B2)
   \<and> (0 \<le> N \<and> N \<le> 1073735680 \<and> 0 \<le> B \<and> B * 4 \<le> INT_MAX
        \<and> 0 \<le> numSMs_of (gpu w) \<and> numSMs_of (gpu w) \<le> 1048575
      \<longrightarrow> compute w input_path N B
           = (Inr (path_append (temp_directory w) ''student_histogram.dat''),
              w\<lparr>files := (files w)(path_append (temp_directory w) ''student_histogram.dat'' \<mapsto>
                 (if launch_accepted (gpu w) (spec_unit_count (numSMs_of (gpu w)) N) blockSize
                       (wrap32 (B * 4))
                  then spec_histogram
                         (read_ints ((files w)(path_append (temp_directory w)
                            ''student_histogram.dat'' \<mapsto> [])) input_path (nat N)) B
                  else replicate (nat B) 0))\<rparr>))
   \<and> (compute w path1 N1 B1 = (Inr p1, w1)
        \<and> 0 \<le> N2 \<and> N2 \<le> 1073735680 \<and> 0 \<le> B2 \<and> B2 * 4 \<le> INT_MAX
        \<and> 0 \<le> numSMs_of (gpu w) \<and> numSMs_of (gpu w) \<le> 1048575
      \<longrightarrow> (\<exists>w2. compute w1 path2 N2 B2 = (Inr p1, w2)
             \<and> files w2 p1 = Some
                 (if launch_accepted (gpu w) (spec_unit_count (numSMs_of (gpu w)) N2) blockSize
                       (wrap32 (B2 * 4))
                  then spec_histogram (read_ints ((files w)(p1 \<mapsto> [])) path2 (nat N2)) B2
                  else replicate (nat B2) 0)
             \<and> (\<forall>q. q \<noteq> p1 \<longrightarrow> files w2 q = files w q)))"
proof -
  let ?content = "\<lambda>w input_path N B.
      if launch_accepted (gpu w) (spec_unit_count (numSMs_of (gpu w)) N) blockSize (wrap32 (B * 4))
      then spec_histogram (read_ints ((files w)(student_path w \<mapsto> [])) input_path (nat N)) B
      else replicate (nat B) 0"
  have one: "p = path_append (temp_directory w) ''student_histogram.dat''
      \<and> temp_directory w' = temp_directory w
      \<and> (\<exists>h. w' = w\<lparr>files := (files w)(p \<mapsto> h)\<rparr>)"
    if "compute w input_path N B = (Inr p, w')" for w input_path N B p w'
    using compute_path[OF that] compute_world[OF that] by (simp add: student_path_def)
  have two: "compute w1 path2 N2 B2 = compute w path2 N2 B2"
    if "compute w path1 N1 B1 = (Inr p1, w1)"
  proof -
    from compute_world[OF that] obtain h
      where "w1 = w\<lparr>files := (files w)(student_path w \<mapsto> h)\<rparr>" by blast
    then show ?thesis by (simp only: compute_forgets_old_output)
  qed
  have three: "compute w input_path N B
      = (Inr (student_path w), w\<lparr>files := (files w)(student_path w \<mapsto> ?content w input_path N B)\<rparr>)"
    if a: "0 \<le> N \<and> N \<le> 1073735680 \<and> 0 \<le> B \<and> B * 4 \<le> INT_MAX
      \<and> 0 \<le> numSMs_of (gpu w) \<and> numSMs_of (gpu w) \<le> 1048575" for input_path N B
  proof (cases "launch_accepted (gpu w) (spec_unit_count (numSMs_of (gpu w)) N) blockSize
      (wrap32 (B * 4))")
    case True
    from compute_launch[OF _ _ _ _ _ _ True, of input_path] a True
    show ?thesis by simp
  next
    case False
    have p: "plan_grid (numSMs_of (gpu w)) N = Inr (spec_unit_count (numSMs_of (gpu w)) N)"
      using a by (intro plan_grid_fits) simp_all
    from compute_no_launch[OF _ _ p False, of input_path] a False
    show ?thesis by simp
  qed
  have four: "\<exists>w2. compute w1 path2 N2 B2 = (Inr p1, w2)
      \<and> files w2 p1 = Some
          (if launch_accepted (gpu w) (spec_unit_count (numSMs_of (gpu w)) N2) blockSize
                (wrap32 (B2 * 4))
           then spec_histogram (read_ints ((files w)(p1 \<mapsto> [])) path2 (nat N2)) B2
           else replicate (nat B2) 0)
      \<and> (\<forall>q. q \<noteq> p1 \<longrightarrow> files w2 q = files w q)"
    if b: "compute w path1 N1 B1 = (Inr p1, w1)
        \<and> 0 \<le> N2 \<and> N2 \<le> 1073735680 \<and> 0 \<le> B2 \<and> B2 * 4 \<le> INT_MAX
        \<and> 0 \<le> numSMs_of (gpu w) \<and> numSMs_of (gpu w) \<le> 1048575"
  proof -
    have c1: "compute w path1 N1 B1 = (Inr p1, w1)" using b by simp
    have p1: "p1 = student_path w" using compute_path[OF c1] by simp
    have "compute w1 path2 N2 B2 = compute w path2 N2 B2" by (rule two[OF c1])
    also have "\<dots> = (Inr (student_path w),
        w\<lparr>files := (files w)(student_path w \<mapsto> ?content w path2 N2 B2)\<rparr>)"
      by (rule three) (use b in simp)
    finally show ?thesis unfolding p1 by simp
  qed
  from one[of w input_path N B p w'] two three[of N B input_path] four
  show ?thesis unfolding student_path_def by blast
qed

theorem compute_output_path_witness:
  "\<exists>w1 w2. compute lab ''/tmp/input-10.dat'' 10 4 = (Inr ''/tmp/student_histogram.dat'', w1)
     \<and> files w1 ''/tmp/student_histogram.dat'' = Some [2, 3, 2, 3]
     \<and> compute w1 ''/tmp/input-10.dat'' 5 4 = (Inr ''/tmp/student_histogram.dat'', w2)
     \<and> files w2 ''/tmp/student_histogram.dat'' = Some [1, 2, 1, 1]
     \<and> files w2 ''/tmp/input-10.dat'' = files lab ''/tmp/input-10.dat''
     \<and> compute w1 ''/tmp/input-10.dat'' 5 4 = compute lab ''/tmp/input-10.dat'' 5 4"
proof -
  let ?in = "''/tmp/input-10.dat''" and ?out = "''/tmp/student_histogram.dat''"
  have s: "0 \<le> numSMs_of (gpu lab)" "numSMs_of (gpu lab) \<le> 1048575"
    by (simp_all add: numSMs_of_def lab_def V100_def)
  have t: "path_append (temp_directory lab) ''student_histogram.dat'' = ?out"
    by (simp add: path_append_def lab_def)
  have r: "(0::int) \<le> 10 \<and> (10::int) \<le> 1073735680 \<and> (0::int) \<le> 4 \<and> (4::int) * 4 \<le> INT_MAX
      \<and> 0 \<le> numSMs_of (gpu lab) \<and> numSMs_of (gpu lab) \<le> 1048575"
    using s by (simp add: INT_MAX_def)
  have a10: "launch_accepted (gpu lab) (spec_unit_count (numSMs_of (gpu lab)) 10) blockSize
      (wrap32 (4 * 4))"
    by code_simp
  have a5: "launch_accepted (gpu lab) (spec_unit_count (numSMs_of (gpu lab)) 5) blockSize
      (wrap32 (4 * 4))"
    by code_simp
  have h10: "spec_histogram (read_ints ((files lab)(?out \<mapsto> [])) ?in (nat 10)) 4 = [2, 3, 2, 3]"
    by code_simp
  have h5: "spec_histogram (read_ints ((files lab)(?out \<mapsto> [])) ?in (nat 5)) 4 = [1, 2, 1, 1]"
    by code_simp
  define w1 where "w1 = lab\<lparr>files := (files lab)(?out \<mapsto> [2, 3, 2, 3])\<rparr>"
  from compute_output_path[of lab ?in 10 4, THEN conjunct2, THEN conjunct2, THEN conjunct1,
      THEN mp, OF r]
  have 1: "compute lab ?in 10 4 = (Inr ?out, w1)"
    unfolding t w1_def using a10 h10 by simp
  have f1: "files w1 ?out = Some [2, 3, 2, 3]" by (simp add: w1_def)
  have r2: "compute lab ?in 10 4 = (Inr ?out, w1)
      \<and> (0::int) \<le> 5 \<and> (5::int) \<le> 1073735680 \<and> (0::int) \<le> 4 \<and> (4::int) * 4 \<le> INT_MAX
      \<and> 0 \<le> numSMs_of (gpu lab) \<and> numSMs_of (gpu lab) \<le> 1048575"
    using 1 s by (simp add: INT_MAX_def)
  from compute_output_path[of lab _ _ _ _ _ ?in 10 4 ?out w1 ?in 5 4, THEN conjunct2,
      THEN conjunct2, THEN conjunct2, THEN mp, OF r2]
  obtain w2 where 2: "compute w1 ?in 5 4 = (Inr ?out, w2)"
    and f2: "files w2 ?out = Some [1, 2, 1, 1]"
    and o2: "\<forall>q. q \<noteq> ?out \<longrightarrow> files w2 q = files lab q"
    using a5 h5 by auto
  from compute_output_path[of lab _ _ _ _ _ ?in 10 4 ?out w1 ?in 5 4, THEN conjunct2,
      THEN conjunct1, THEN mp, OF 1]
  have 3: "compute w1 ?in 5 4 = compute lab ?in 5 4" .
  have 4: "files w2 ?in = files lab ?in" using o2 by simp
  from 1 f1 2 f2 3 4 show ?thesis by blast
qed
end
